theory Spec2Isabelle
  imports Main "HOL-Library.Word" "HOL-Library.Sublist" "HOL-Library.Multiset"
begin

unbundle bit_operations_syntax

section \<open>Common types\<close>

text \<open>
  A byte is the C++ \<open>unsigned char\<close>; \<open>uint32_t\<close> is a 32-bit word.  A file is
  the list of its bytes.
\<close>

type_synonym byte = "8 word"
type_synonym u32 = "32 word"

section \<open>Run-length codec (rle.cpp)\<close>

text \<open>\<open>MAX_RUN_LENGTH\<close> of rle.h.\<close>

definition MAX_RUN_LENGTH :: byte where
  "MAX_RUN_LENGTH = 255"

text \<open>\<open>writeRunLength\<close>: the count byte, then the character byte.\<close>

definition writeRunLength :: "byte \<Rightarrow> byte \<Rightarrow> byte list" where
  "writeRunLength cnt character = [cnt, character]"

text \<open>
  The read loop of \<open>RLECompressor::compress\<close>.  The state is the triple
  \<open>currentChar\<close>, \<open>count\<close> (here \<open>cnt\<close>), \<open>firstChar\<close>; the argument list is what is still
  unread of the input file and the result is what the loop and the code after it
  append to the output file.  \<open>count\<close> is an \<open>unsigned char\<close>, so \<open>count++\<close> is
  addition on \<open>8 word\<close>.
\<close>

fun rle_compress_loop :: "byte \<Rightarrow> byte \<Rightarrow> bool \<Rightarrow> byte list \<Rightarrow> byte list" where
  "rle_compress_loop currentChar cnt firstChar [] =
     (if \<not> firstChar then writeRunLength cnt currentChar else [])"
| "rle_compress_loop currentChar cnt firstChar (ch # rest) =
     (if firstChar then rle_compress_loop ch 1 False rest
      else if ch = currentChar \<and> cnt < MAX_RUN_LENGTH
        then rle_compress_loop currentChar (cnt + 1) False rest
      else writeRunLength cnt currentChar @ rle_compress_loop ch 1 False rest)"

text \<open>
  \<open>RLECompressor::compress\<close> on an input file that exists and an output file that
  can be created: the boolean result and the bytes of the output file.
\<close>

definition rle_compress :: "byte list \<Rightarrow> bool \<times> byte list" where
  "rle_compress input = (True, rle_compress_loop 0 0 True input)"

text \<open>
  \<open>readRunLength\<close> reads two bytes and fails as soon as one of them is missing;
  \<open>RLECompressor::decompress\<close> loops while it succeeds, writing \<open>count\<close> copies of
  \<open>character\<close>.  A single byte left at the end makes \<open>readRunLength\<close> return
  false, which only ends the loop.
\<close>

fun readRunLength :: "byte list \<Rightarrow> ((byte \<times> byte) \<times> byte list) option" where
  "readRunLength (cnt # character # rest) = Some ((cnt, character), rest)"
| "readRunLength _ = None"

fun rle_decompress_loop :: "byte list \<Rightarrow> byte list" where
  "rle_decompress_loop (cnt # character # rest) =
     replicate (unat cnt) character @ rle_decompress_loop rest"
| "rle_decompress_loop [c] = []"
| "rle_decompress_loop [] = []"

definition rle_decompress :: "byte list \<Rightarrow> bool \<times> byte list" where
  "rle_decompress input = (True, rle_decompress_loop input)"

text \<open>\<open>isValidRLEFile\<close>: a positive, even size.\<close>

definition isValidRLEFile :: "byte list \<Rightarrow> bool" where
  "isValidRLEFile bs = (\<not> (length bs = 0 \<or> length bs mod 2 \<noteq> 0))"

section \<open>Run-length codec: properties\<close>

lemma rle_decompress_loop_record:
  "rle_decompress_loop (writeRunLength c b @ rest) = replicate (unat c) b @ rle_decompress_loop rest"
  by (simp add: writeRunLength_def)

lemma unat_count_succ:
  fixes cnt :: byte
  assumes "cnt < MAX_RUN_LENGTH"
  shows "unat (cnt + 1) = Suc (unat cnt)"
proof -
  from assms have "unat cnt < 255"
    by (simp add: MAX_RUN_LENGTH_def word_less_nat_alt)
  then show ?thesis
    by (simp add: unat_word_ariths)
qed

lemma rle_loop_roundtrip:
  "rle_decompress_loop (rle_compress_loop cur cnt False xs) = replicate (unat cnt) cur @ xs"
proof (induction xs arbitrary: cur cnt)
  case Nil
  show ?case using rle_decompress_loop_record [of cnt cur "[]"] by simp
next
  case (Cons ch rest)
  show ?case
  proof (cases "ch = cur \<and> cnt < MAX_RUN_LENGTH")
    case True
    then show ?thesis
      using Cons.IH [of cur "cnt + 1"]
      by (simp add: unat_count_succ replicate_append_same)
  next
    case False
    then show ?thesis
      using Cons.IH [of ch 1] by (auto simp: rle_decompress_loop_record)
  qed
qed

lemma rle_roundtrip: "snd (rle_decompress (snd (rle_compress S))) = S"
proof (cases S)
  case Nil
  then show ?thesis by (simp add: rle_compress_def rle_decompress_def)
next
  case (Cons ch rest)
  then show ?thesis
    using rle_loop_roundtrip [of ch 1 rest]
    by (simp add: rle_compress_def rle_decompress_def)
qed


lemma rle_decompress_loop_butlast:
  "odd (length bs) \<Longrightarrow> rle_decompress_loop bs = rle_decompress_loop (butlast bs)"
proof (induction bs rule: rle_decompress_loop.induct)
  case (1 cnt character rest)
  then have "rest \<noteq> []" by auto
  with 1 show ?case
    by (cases rest) auto
qed simp_all


lemma rle_run_compress:
  fixes cnt :: byte
  assumes "1 \<le> unat cnt"
  shows "rle_compress_loop b cnt False (replicate n b) =
         concat (replicate ((unat cnt + n - 1) div 255) [255, b]) @
         [of_nat ((unat cnt + n - 1) mod 255 + 1), b]"
  using assms
proof (induction n arbitrary: cnt)
  case 0
  have "unat cnt < 2 ^ LENGTH(8)"
    by (rule unsigned_less)
  then have le: "unat cnt \<le> 255"
    by simp
  with 0 have d: "(unat cnt - 1) div 255 = 0" and m: "(unat cnt - 1) mod 255 + 1 = unat cnt"
    by auto
  have "rle_compress_loop b cnt False (replicate 0 b) = [cnt, b]"
    by (simp add: writeRunLength_def)
  moreover have "concat (replicate ((unat cnt + 0 - 1) div 255) [255, b]) @
         [of_nat ((unat cnt + 0 - 1) mod 255 + 1), b] = [cnt, b]"
    using d m by simp
  ultimately show ?case by simp
next
  case (Suc n)
  show ?case
  proof (cases "cnt < MAX_RUN_LENGTH")
    case True
    then have u: "unat (cnt + 1) = Suc (unat cnt)"
      by (rule unat_count_succ)
    have "rle_compress_loop b cnt False (replicate (Suc n) b) =
          rle_compress_loop b (cnt + 1) False (replicate n b)"
      using True by simp
    also have "\<dots> = concat (replicate ((unat (cnt + 1) + n - 1) div 255) [255, b]) @
          [of_nat ((unat (cnt + 1) + n - 1) mod 255 + 1), b]"
      by (rule Suc.IH) (simp add: u)
    finally show ?thesis
      by (simp add: u)
  next
    case False
    moreover have "unat cnt < 2 ^ LENGTH(8)"
      by (rule unsigned_less)
    ultimately have "unat cnt = unat (255 :: byte)"
      by (simp add: MAX_RUN_LENGTH_def word_less_nat_alt)
    then have c: "cnt = 255"
      by (simp only: word_unat_eq_iff)
    have "unat cnt + Suc n - 1 = n + 255"
      by (simp add: c)
    then have dv: "(unat cnt + Suc n - 1) div 255 = Suc (n div 255)"
      and md: "(unat cnt + Suc n - 1) mod 255 = n mod 255"
      by simp_all
    have ih: "rle_compress_loop b 1 False (replicate n b) =
          concat (replicate ((unat (1 :: byte) + n - 1) div 255) [255, b]) @
          [of_nat ((unat (1 :: byte) + n - 1) mod 255 + 1), b]"
      by (rule Suc.IH) simp
    have "rle_compress_loop b cnt False (replicate (Suc n) b) =
          [255, b] @ rle_compress_loop b 1 False (replicate n b)"
      using False c by (simp add: writeRunLength_def)
    also have "\<dots> = [255, b] @ concat (replicate (n div 255) [255, b]) @
          [of_nat (n mod 255 + 1), b]"
      using ih by simp
    finally show ?thesis
      by (simp only: dv md replicate.simps concat.simps append.simps)
  qed
qed
text \<open>
  C5 (as stated, refuted): a file of three bytes has odd length and
  \<open>RLECompressor::decompress\<close> returns true on it.
\<close>

theorem rle_decompress_odd_counterexample:
  "odd (length [3, 0x41, 7 :: byte]) \<and> rle_decompress [3, 0x41, 7] = (True, [0x41, 0x41, 0x41])"
  by code_simp

text \<open>
  The complete (count, byte) records at the front of a file, in order; a single byte left
  over at the end belongs to no record.
\<close>

fun records :: "byte list \<Rightarrow> (byte \<times> byte) list" where
  "records (cnt # character # rest) = (cnt, character) # records rest"
| "records [c] = []"
| "records [] = []"

lemma rle_decompress_loop_records:
  "rle_decompress_loop bs = concat (map (\<lambda>(cnt, character). replicate (unat cnt) character) (records bs))"
  by (induction bs rule: rle_decompress_loop.induct) simp_all

lemma records_butlast: "odd (length bs) \<Longrightarrow> records bs = records (butlast bs)"
proof (induction bs rule: records.induct)
  case (1 cnt character rest)
  then have "rest \<noteq> []" by auto
  with 1 show ?case
    by (cases rest) auto
qed simp_all

lemma length_records: "length (records bs) = length bs div 2"
  by (induction bs rule: records.induct) simp_all

text \<open>
  C5 (amended): on a file with an odd number of bytes \<open>RLECompressor::decompress\<close>
  succeeds; it decodes the complete (count, byte) pairs, writing \<open>count\<close> copies of
  \<open>byte\<close> for each of the \<open>length bs div 2\<close> pairs in order, and ignores the unpaired
  last byte, so its output is that of the file without its last byte.  Only
  \<open>isValidRLEFile\<close>, which \<open>decompress\<close> does not consult, rejects the file.
\<close>

theorem rle_decompress_odd_length:
  "odd (length bs) \<Longrightarrow>
     fst (rle_decompress bs) \<and>
     snd (rle_decompress bs) =
       concat (map (\<lambda>(cnt, character). replicate (unat cnt) character) (records (butlast bs))) \<and>
     length (records (butlast bs)) = length bs div 2 \<and>
     snd (rle_decompress bs) = snd (rle_decompress (butlast bs)) \<and>
     \<not> isValidRLEFile bs"
proof -
  assume odd: "odd (length bs)"
  have out: "snd (rle_decompress bs) =
      concat (map (\<lambda>(cnt, character). replicate (unat cnt) character) (records (butlast bs)))"
    using records_butlast [OF odd] by (simp add: rle_decompress_def rle_decompress_loop_records)
  have "length (records (butlast bs)) = length (records bs)"
    using records_butlast [OF odd] by simp
  then have len: "length (records (butlast bs)) = length bs div 2"
    by (simp only: length_records)
  have same: "snd (rle_decompress bs) = snd (rle_decompress (butlast bs))"
    using rle_decompress_loop_butlast [OF odd] by (simp add: rle_decompress_def)
  have inv: "\<not> isValidRLEFile bs"
    using odd by (simp add: isValidRLEFile_def odd_iff_mod_2_eq_one)
  from out len same inv show ?thesis
    by (simp add: rle_decompress_def)
qed

theorem rle_decompress_odd_length_witness:
  "odd (length [3, 0x41, 7 :: byte]) \<and>
     fst (rle_decompress [3, 0x41, 7]) \<and>
     snd (rle_decompress [3, 0x41, 7]) =
       concat (map (\<lambda>(cnt, character). replicate (unat cnt) character) (records (butlast [3, 0x41, 7]))) \<and>
     snd (rle_decompress [3, 0x41, 7]) = snd (rle_decompress (butlast [3, 0x41, 7])) \<and>
     records (butlast [3, 0x41, 7 :: byte]) = [(3, 0x41)] \<and>
     \<not> isValidRLEFile [3, 0x41, 7 :: byte]"
proof -
  have h: "odd (length [3, 0x41, 7 :: byte])" by simp
  have r: "records (butlast [3, 0x41, 7 :: byte]) = [(3, 0x41)]" by simp
  show ?thesis
    using h r rle_decompress_odd_length [OF h] by blast
qed

text \<open>
  C7: a run of \<open>N > 255\<close> copies of one byte \<open>b\<close> is compressed to
  \<open>(N - 1) div 255\<close> records \<open>(255, b)\<close> followed by one record whose count is
  \<open>(N - 1) mod 255 + 1\<close> (between 1 and 255): \<open>\<lceil>N / 255\<rceil>\<close> records and twice as
  many bytes.  300 bytes \<open>0x41\<close> give \<open>FF 41 2D 41\<close>.
\<close>

theorem rle_long_run:
  assumes "255 < N"
  shows "snd (rle_compress (replicate N b)) =
           concat (replicate ((N - 1) div 255) [255, b]) @ [of_nat ((N - 1) mod 255 + 1), b]
         \<and> (N - 1) div 255 + 1 = (N + 254) div 255
         \<and> length (snd (rle_compress (replicate N b))) = 2 * ((N + 254) div 255)
         \<and> snd (rle_compress (replicate 300 0x41)) = [0xFF, 0x41, 0x2D, 0x41]"
proof -
  have run: "snd (rle_compress (replicate n c)) =
      concat (replicate ((n - 1) div 255) [255, c]) @ [of_nat ((n - 1) mod 255 + 1), c]"
    if "0 < n" for n and c :: byte
  proof -
    from that obtain m where n: "n = Suc m" by (cases n) auto
    show ?thesis
      using rle_run_compress [of 1 c m] by (simp add: n rle_compress_def)
  qed
  have "N + 254 = (N - 1) + 255"
    using assms by simp
  then have cnt: "(N - 1) div 255 + 1 = (N + 254) div 255"
    by simp
  have len: "length (concat (replicate k [255, b])) = 2 * k" for k
    by (induction k) auto
  have "length (snd (rle_compress (replicate N b))) = 2 * ((N - 1) div 255) + 2"
    using assms by (simp add: run len)
  with cnt have l: "length (snd (rle_compress (replicate N b))) = 2 * ((N + 254) div 255)"
    by simp
  have ex: "snd (rle_compress (replicate 300 (0x41 :: byte))) = [0xFF, 0x41, 0x2D, 0x41]"
    by code_simp
  have "snd (rle_compress (replicate N b)) =
      concat (replicate ((N - 1) div 255) [255, b]) @ [of_nat ((N - 1) mod 255 + 1), b]"
    using assms by (intro run) simp
  with cnt l ex show ?thesis
    by blast
qed

theorem rle_long_run_witness:
  "(255 :: nat) < 300 \<and>
   snd (rle_compress (replicate 300 (0x41 :: byte))) =
     concat (replicate ((300 - 1) div 255) [255, 0x41]) @ [of_nat ((300 - 1) mod 255 + 1), 0x41]
   \<and> length (snd (rle_compress (replicate 300 (0x41 :: byte)))) = 2 * ((300 + 254) div 255)"
proof -
  have h: "(255 :: nat) < 300" by simp
  show ?thesis
    using h rle_long_run [OF h, of "0x41"] by blast
qed




section \<open>Bit writer and bit reader (lzw.cpp)\<close>

text \<open>
  A \<open>std::ofstream\<close>: whether the file is open, and the bytes written so far.  A
  write to a stream that has been closed fails and leaves the file as it is.
\<close>

record ofstream =
  os_open :: bool
  os_data :: "byte list"

definition ofstream_new :: ofstream where
  "ofstream_new = \<lparr>os_open = True, os_data = []\<rparr>"

definition ofstream_write :: "ofstream \<Rightarrow> byte list \<Rightarrow> ofstream" where
  "ofstream_write out bs = (if os_open out then out\<lparr>os_data := os_data out @ bs\<rparr> else out)"

definition ofstream_close :: "ofstream \<Rightarrow> ofstream" where
  "ofstream_close out = out\<lparr>os_open := False\<rparr>"

text \<open>
  \<open>class BitWriter\<close>: the output stream, \<open>buffer_\<close> and \<open>bitsInBuffer_\<close>.
  \<open>bitsInBuffer_\<close> is an \<open>int\<close> that stays within 0..31 between calls; it is a
  \<open>nat\<close> here.
\<close>

record BitWriter =
  w_output :: ofstream
  w_buffer :: u32
  w_bitsInBuffer :: nat

definition BitWriter_new :: "ofstream \<Rightarrow> BitWriter" where
  "BitWriter_new out = \<lparr>w_output = out, w_buffer = 0, w_bitsInBuffer = 0\<rparr>"

text \<open>
  \<open>BitWriter::writeBits\<close>.  Each turn of the loop takes the \<^emph>\<open>low\<close>
  \<open>bitsToWrite\<close> bits of \<open>value\<close>, puts them below the bits already in the
  register, and shifts \<open>value\<close> right.  A full register is written as four bytes, the
  most significant first.

  The C++ loop has no exit when \<open>bitsInBuffer_\<close> is 32 or more on entry
  (\<open>bitsToWrite\<close> would be 0); no writer built by the constructor reaches such a state
  and the model returns there.  When \<open>bitsToWrite\<close> is 32 the C++ shifts by the full
  width (undefined behaviour); \<open>push_bit 32 1 = 0\<close> in the model, the mask of 32 ones.
\<close>

function writeBits :: "BitWriter \<Rightarrow> u32 \<Rightarrow> nat \<Rightarrow> BitWriter" where
  "writeBits w v numBits =
     (if numBits > 0 \<and> w_bitsInBuffer w < 32 then
        let bitsToWrite = min numBits (32 - w_bitsInBuffer w);
            buf = w_buffer w OR
                  push_bit (32 - w_bitsInBuffer w - bitsToWrite) (v AND (push_bit bitsToWrite 1 - 1));
            inbuf = w_bitsInBuffer w + bitsToWrite;
            w' = (if inbuf = 32
                  then w\<lparr>w_output := ofstream_write (w_output w)
                             [ucast (drop_bit 24 buf AND 0xFF), ucast (drop_bit 16 buf AND 0xFF),
                              ucast (drop_bit 8 buf AND 0xFF), ucast (buf AND 0xFF)],
                         w_buffer := 0, w_bitsInBuffer := 0\<rparr>
                  else w\<lparr>w_buffer := buf, w_bitsInBuffer := inbuf\<rparr>)
        in writeBits w' (drop_bit bitsToWrite v) (numBits - bitsToWrite)
      else w)"
  by pat_completeness auto
termination
  by (relation "measure (\<lambda>(w, v, n). n)") (auto simp: min_def)

declare writeBits.simps [simp del]

text \<open>\<open>BitWriter::flush\<close>: the bytes of the register that hold bits, the top one first.\<close>

definition flush :: "BitWriter \<Rightarrow> BitWriter" where
  "flush w =
     (if w_bitsInBuffer w > 0 then
        let bytesToWrite = (w_bitsInBuffer w + 7) div 8;
            out = fold (\<lambda>i out. ofstream_write out [ucast (drop_bit (24 - i * 8) (w_buffer w) AND 0xFF)])
                       [0..<bytesToWrite] (w_output w)
        in w\<lparr>w_output := out, w_buffer := 0, w_bitsInBuffer := 0\<rparr>
      else w)"

text \<open>
  \<open>class BitReader\<close>.  \<open>r_input\<close> is the part of the input file not read yet: a
  \<open>read\<close> of four bytes takes up to four of them, and \<open>gcount\<close> is how many it got.
\<close>

record BitReader =
  r_input :: "byte list"
  r_buffer :: u32
  r_bitsInBuffer :: nat
  r_endOfFile :: bool

definition BitReader_new :: "byte list \<Rightarrow> BitReader" where
  "BitReader_new input = \<lparr>r_input = input, r_buffer = 0, r_bitsInBuffer = 0, r_endOfFile = False\<rparr>"

text \<open>\<open>BitReader::fillBuffer\<close>.\<close>

definition fillBuffer :: "BitReader \<Rightarrow> BitReader" where
  "fillBuffer r =
     (let bytes = take 4 (r_input r);
          bytesRead = length bytes;
          r1 = r\<lparr>r_input := drop 4 (r_input r)\<rparr>
      in if bytesRead = 0 then r1\<lparr>r_endOfFile := True\<rparr>
         else
           let buf = fold (\<lambda>i b. b OR push_bit (24 - i * 8) (ucast (bytes ! i))) [0..<bytesRead] 0;
               r2 = r1\<lparr>r_buffer := buf, r_bitsInBuffer := bytesRead * 8\<rparr>
           in if bytesRead < 4 then r2\<lparr>r_endOfFile := True\<rparr> else r2)"

text \<open>
  The loop of \<open>BitReader::readBits\<close>, with its locals \<open>result\<close> and \<open>bitsRead\<close>.
  The loop runs only while \<open>endOfFile_\<close> is false.  When \<open>bitsToRead\<close> is 32 the C++
  shifts by the full width (undefined behaviour); the model takes the mask of 32 ones and
  an emptied register.
\<close>

function readBits_loop :: "nat \<Rightarrow> BitReader \<Rightarrow> u32 \<Rightarrow> nat \<Rightarrow> u32 \<times> BitReader" where
  "readBits_loop numBits r result bitsRead =
     (if bitsRead < numBits \<and> \<not> r_endOfFile r then
        let r1 = (if r_bitsInBuffer r = 0 then fillBuffer r else r) in
        if r_bitsInBuffer r1 > 0 then
          let bitsToRead = min (numBits - bitsRead) (r_bitsInBuffer r1);
              mask = push_bit bitsToRead 1 - 1;
              bits = drop_bit (32 - bitsToRead) (r_buffer r1) AND mask;
              result' = result OR push_bit (numBits - bitsRead - bitsToRead) bits;
              r2 = r1\<lparr>r_buffer := push_bit bitsToRead (r_buffer r1),
                       r_bitsInBuffer := r_bitsInBuffer r1 - bitsToRead\<rparr>
          in readBits_loop numBits r2 result' (bitsRead + bitsToRead)
        else readBits_loop numBits r1 result bitsRead
      else (result, r))"
  by pat_completeness auto
termination
proof (relation "measure (\<lambda>(n, r, res, br). if r_endOfFile r then 0 else 1 + (n - br))", goal_cases)
  case 1
  show ?case by simp
next
  case (2 numBits r result bitsRead r1 bitsToRead mask bits result' r2)
  then show ?case
    by (auto simp: min_def)
next
  case (3 numBits r result bitsRead r1)
  then show ?case
    by (auto simp: fillBuffer_def Let_def split: if_splits)
qed

declare readBits_loop.simps [simp del]

definition readBits :: "BitReader \<Rightarrow> nat \<Rightarrow> u32 \<times> BitReader" where
  "readBits r numBits = readBits_loop numBits r 0 0"

definition hasData :: "BitReader \<Rightarrow> bool" where
  "hasData r = (\<not> r_endOfFile r \<or> r_bitsInBuffer r > 0)"

text \<open>
  The two sides of the bit stream put together: every pair written with
  \<open>writeBits\<close>, then \<open>flush\<close>; and a list of widths read one after the other with
  \<open>readBits\<close>.
\<close>

definition write_all :: "(u32 \<times> nat) list \<Rightarrow> byte list" where
  "write_all vs = os_data (w_output (flush (fold (\<lambda>(v, n) w. writeBits w v n) vs (BitWriter_new ofstream_new))))"

fun read_seq :: "BitReader \<Rightarrow> nat list \<Rightarrow> u32 list" where
  "read_seq r [] = []"
| "read_seq r (n # ns) = (case readBits r n of (v, r') \<Rightarrow> v # read_seq r' ns)"

definition read_all :: "byte list \<Rightarrow> nat list \<Rightarrow> u32 list" where
  "read_all bs ns = read_seq (BitReader_new bs) ns"


section \<open>Bit writer and bit reader: properties\<close>

text \<open>
  For the statements about reading at the end of the file: the bytes of a list as one
  number, the first byte the most significant; and the bits a reader still has (the
  \<open>r_bitsInBuffer\<close> top bits of the register, then the unread bytes) as one number.
\<close>

definition be_value :: "byte list \<Rightarrow> u32" where
  "be_value bs = fold (\<lambda>b acc. push_bit 8 acc OR ucast b) bs 0"

definition avail_value :: "BitReader \<Rightarrow> u32" where
  "avail_value r =
     push_bit (8 * length (r_input r)) (drop_bit (32 - r_bitsInBuffer r) (r_buffer r))
       OR be_value (r_input r)"


lemma top_bits_masked:
  fixes buf :: u32
  assumes "k \<le> 32"
  shows "drop_bit (32 - k) buf AND (push_bit k 1 - 1) = drop_bit (32 - k) buf"
proof (rule bit_word_eqI)
  fix i
  assume "i < LENGTH(32)"
  show "bit (drop_bit (32 - k) buf AND (push_bit k 1 - 1)) i = bit (drop_bit (32 - k) buf) i"
    using assms bit_imp_le_length [of buf "32 - k + i"]
    by (auto simp flip: mask_eq_exp_minus_1 simp add: bit_simps)
qed

lemma readBits_loop_step:
  assumes "\<not> r_endOfFile r" and "br < n"
    and "r1 = (if r_bitsInBuffer r = 0 then fillBuffer r else r)"
    and "0 < r_bitsInBuffer r1" and "r_bitsInBuffer r1 \<le> n - br"
  shows "readBits_loop n r res br =
         readBits_loop n (r1\<lparr>r_buffer := push_bit (r_bitsInBuffer r1) (r_buffer r1), r_bitsInBuffer := 0\<rparr>)
           (res OR push_bit (n - br - r_bitsInBuffer r1)
              (drop_bit (32 - r_bitsInBuffer r1) (r_buffer r1) AND (push_bit (r_bitsInBuffer r1) 1 - 1)))
           (br + r_bitsInBuffer r1)"
  using assms
  by (subst readBits_loop.simps) (simp add: Let_def min_def)

lemma readBits_loop_eof:
  assumes "r_endOfFile r"
  shows "readBits_loop n r res br = (res, r)"
  using assms by (subst readBits_loop.simps) simp

lemma readBits_loop_done:
  assumes "\<not> br < n"
  shows "readBits_loop n r res br = (res, r)"
  using assms by (subst readBits_loop.simps) simp

lemma fillBuffer_empty:
  assumes "r_input r = []"
  shows "fillBuffer r = r\<lparr>r_input := [], r_endOfFile := True\<rparr>"
  using assms by (simp add: fillBuffer_def)

lemma fillBuffer_short:
  assumes "r_input r \<noteq> []" and "length (r_input r) < 4"
  shows "fillBuffer r = r\<lparr>r_input := [],
           r_buffer := fold (\<lambda>i b. b OR push_bit (24 - i * 8) (ucast (r_input r ! i))) [0..<length (r_input r)] 0,
           r_bitsInBuffer := length (r_input r) * 8, r_endOfFile := True\<rparr>"
  using assms by (simp add: fillBuffer_def Let_def)

lemma bit_byte_lt: "bit (a :: byte) i \<Longrightarrow> i < 8"
  using bit_imp_le_length [of a i] by simp

lemma packed_be_value:
  assumes "bs \<noteq> []" and "length bs < 4"
  shows "drop_bit (32 - 8 * length bs)
           (fold (\<lambda>i b. b OR push_bit (24 - i * 8) (ucast (bs ! i))) [0..<length bs] (0 :: u32))
         = be_value bs"
proof -
  consider a where "bs = [a]" | a b where "bs = [a, b]" | a b c where "bs = [a, b, c]"
    using assms by (cases bs rule: list.exhaust; cases "tl bs"; cases "tl (tl bs)"; cases "tl (tl (tl bs))") auto
  then show ?thesis
  proof cases
    case 1
    have "drop_bit 24 (push_bit 24 (ucast a) :: u32) = ucast a"
    proof (rule bit_word_eqI)
      fix n
      show "bit (drop_bit 24 (push_bit 24 (ucast a) :: u32)) n = bit (ucast a :: u32) n"
        using bit_byte_lt [of a n] by (auto simp add: bit_simps)
    qed
    then show ?thesis
      by (simp add: 1 be_value_def)
  next
    case 2
    have "drop_bit 16 (push_bit 24 (ucast a) OR push_bit 16 (ucast b) :: u32) =
          push_bit 8 (ucast a) OR ucast b"
    proof (rule bit_word_eqI)
      fix n
      show "bit (drop_bit 16 (push_bit 24 (ucast a) OR push_bit 16 (ucast b) :: u32)) n =
            bit (push_bit 8 (ucast a) OR ucast b :: u32) n"
        using bit_byte_lt [of a "n - 8"] bit_byte_lt [of b n] by (auto simp add: bit_simps)
    qed
    then show ?thesis
      by (simp add: 2 be_value_def upt_rec [of 0 2] upt_rec [of 1 2])
  next
    case 3
    have "drop_bit 8 (push_bit 24 (ucast a) OR push_bit 16 (ucast b) OR push_bit 8 (ucast c) :: u32) =
          push_bit 8 (push_bit 8 (ucast a) OR ucast b) OR ucast c"
    proof (rule bit_word_eqI)
      fix n
      show "bit (drop_bit 8 (push_bit 24 (ucast a) OR push_bit 16 (ucast b) OR push_bit 8 (ucast c) :: u32)) n =
            bit (push_bit 8 (push_bit 8 (ucast a) OR ucast b) OR ucast c :: u32) n"
        using bit_byte_lt [of a "n - 16"] bit_byte_lt [of b "n - 8"] bit_byte_lt [of c n]
        by (auto simp add: bit_simps)
    qed
    then show ?thesis
      by (simp add: 3 be_value_def upt_rec [of 0 3] upt_rec [of 1 3] upt_rec [of 2 3] or.assoc del: push_bit_or)
  qed
qed

lemma readBits_loop_fill_empty:
  assumes "\<not> r_endOfFile r" and "br < n" and "r_bitsInBuffer r = 0" and "r_input r = []"
  shows "readBits_loop n r res br = (res, r\<lparr>r_input := [], r_endOfFile := True\<rparr>)"
  using assms
  by (subst readBits_loop.simps) (simp add: fillBuffer_empty readBits_loop_eof)

lemma readBits_loop_fill_short:
  assumes "\<not> r_endOfFile r" and "br < n" and "r_bitsInBuffer r = 0"
    and "r_input r \<noteq> []" and "br + 8 * length (r_input r) < n" and "n \<le> 32"
  shows "fst (readBits_loop n r res br) =
           res OR push_bit (n - br - 8 * length (r_input r)) (be_value (r_input r))"
proof -
  let ?m = "length (r_input r)"
  let ?buf = "fold (\<lambda>i b. b OR push_bit (24 - i * 8) (ucast (r_input r ! i))) [0..<?m] (0 :: u32)"
  define r1 where "r1 = r\<lparr>r_input := [], r_buffer := ?buf, r_bitsInBuffer := ?m * 8, r_endOfFile := True\<rparr>"
  from assms have m: "?m < 4" "0 < ?m" by auto
  have fb: "fillBuffer r = r1"
    unfolding r1_def using assms m by (intro fillBuffer_short) auto
  have k: "r_bitsInBuffer r1 = 8 * ?m" and b: "r_buffer r1 = ?buf" and e: "r_endOfFile r1"
    by (simp_all add: r1_def)
  have bits: "drop_bit (32 - 8 * ?m) ?buf AND (push_bit (8 * ?m) 1 - 1) = be_value (r_input r)"
    using top_bits_masked [of "8 * ?m" ?buf] packed_be_value [of "r_input r"] assms m
    by simp
  have "readBits_loop n r res br =
        readBits_loop n (r1\<lparr>r_buffer := push_bit (r_bitsInBuffer r1) (r_buffer r1), r_bitsInBuffer := 0\<rparr>)
           (res OR push_bit (n - br - r_bitsInBuffer r1)
              (drop_bit (32 - r_bitsInBuffer r1) (r_buffer r1) AND (push_bit (r_bitsInBuffer r1) 1 - 1)))
           (br + r_bitsInBuffer r1)"
    using assms m by (intro readBits_loop_step) (simp_all add: fb k)
  also have "\<dots> = (res OR push_bit (n - br - r_bitsInBuffer r1)
              (drop_bit (32 - r_bitsInBuffer r1) (r_buffer r1) AND (push_bit (r_bitsInBuffer r1) 1 - 1)),
            r1\<lparr>r_buffer := push_bit (r_bitsInBuffer r1) (r_buffer r1), r_bitsInBuffer := 0\<rparr>)"
    by (rule readBits_loop_eof) (simp add: e)
  finally show ?thesis
    by (simp only: fst_conv k b bits)
qed


text \<open>
  C2 (the code at the failing inputs).  Four 9-bit values 1 and a flush give the bytes
  \<open>00 80 40 21 00\<close>: the fourth value crosses the 32-bit register boundary and its low
  five bits are written before its high four bits.  Reading four 9-bit values back gives
  1, 1, 1, 16.  Two 1-bit values 1 give the byte \<open>C0\<close>; the first read returns 1 and
  latches end-of-file, and the second returns 0 although a 1 bit is still in the register.
\<close>

theorem bit_io_not_inverse:
  "write_all [(1, 9), (1, 9), (1, 9), (1, 9)] = [0x00, 0x80, 0x40, 0x21, 0x00] \<and>
   read_all [0x00, 0x80, 0x40, 0x21, 0x00] [9, 9, 9, 9] = [1, 1, 1, 16] \<and>
   write_all [(1, 1), (1, 1)] = [0xC0] \<and>
   read_all [0xC0] [1, 1] = [1, 0]"
  by code_simp

text \<open>
  C6 (as stated, refuted): the file is the single byte \<open>FF\<close> and 9 bits are asked for.
  The eight bits there are come back as \<open>0x1FE\<close>, in the high-order positions of the
  9-bit result, and not as \<open>0xFF\<close>.
\<close>

theorem readBits_past_end_counterexample:
  "fst (readBits (BitReader_new [0xFF]) 9) = 0x1FE \<and> (0x1FE :: u32) \<noteq> be_value [0xFF]"
  by code_simp

text \<open>
  C6 (amended): when \<open>readBits\<close> is called before end-of-file has been latched and fewer
  than \<open>numBits\<close> bits are left (in the register and in the file together), it returns
  those bits followed by zero bits: the available bits stand in the high-order positions of
  the \<open>numBits\<close>-bit result and the missing low-order bits are zero.
\<close>

theorem readBits_past_end:
  assumes "\<not> r_endOfFile r"
    and "r_bitsInBuffer r + 8 * length (r_input r) < numBits"
    and "numBits \<le> 32"
  shows "fst (readBits r numBits) =
         push_bit (numBits - (r_bitsInBuffer r + 8 * length (r_input r))) (avail_value r)"
proof -
  let ?k = "r_bitsInBuffer r"
  let ?m = "length (r_input r)"
  let ?top = "drop_bit (32 - ?k) (r_buffer r)"
  show ?thesis
  proof (cases "?k = 0")
    case True
    show ?thesis
    proof (cases "r_input r = []")
      case True
      with \<open>?k = 0\<close> assms show ?thesis
        by (simp add: readBits_def readBits_loop_fill_empty avail_value_def be_value_def)
    next
      case False
      with \<open>?k = 0\<close> assms
      have "fst (readBits_loop numBits r 0 0) =
            0 OR push_bit (numBits - 0 - 8 * ?m) (be_value (r_input r))"
        by (intro readBits_loop_fill_short) simp_all
      with \<open>?k = 0\<close> show ?thesis
        by (simp add: readBits_def avail_value_def)
    qed
  next
    case False
    define r2 where "r2 = r\<lparr>r_buffer := push_bit ?k (r_buffer r), r_bitsInBuffer := 0\<rparr>"
    have r2: "\<not> r_endOfFile r2" "r_bitsInBuffer r2 = 0" "r_input r2 = r_input r"
      using assms by (simp_all add: r2_def)
    have top: "?top AND (push_bit ?k 1 - 1) = ?top"
      using assms by (intro top_bits_masked) simp
    have "readBits_loop numBits r 0 0 =
          readBits_loop numBits r2 (0 OR push_bit (numBits - 0 - ?k) (?top AND (push_bit ?k 1 - 1))) (0 + ?k)"
      unfolding r2_def using assms False by (intro readBits_loop_step) simp_all
    then have step: "readBits_loop numBits r 0 0 = readBits_loop numBits r2 (push_bit (numBits - ?k) ?top) ?k"
      by (simp only: top) simp
    show ?thesis
    proof (cases "r_input r = []")
      case True
      have "readBits_loop numBits r2 (push_bit (numBits - ?k) ?top) ?k =
            (push_bit (numBits - ?k) ?top, r2\<lparr>r_input := [], r_endOfFile := True\<rparr>)"
        using assms r2 True by (intro readBits_loop_fill_empty) simp_all
      with True step show ?thesis
        by (simp add: readBits_def avail_value_def be_value_def)
    next
      case False
      have "fst (readBits_loop numBits r2 (push_bit (numBits - ?k) ?top) ?k) =
            push_bit (numBits - ?k) ?top OR push_bit (numBits - ?k - 8 * length (r_input r2)) (be_value (r_input r2))"
        using assms r2 False by (intro readBits_loop_fill_short) simp_all
      moreover have "numBits - (?k + 8 * ?m) + 8 * ?m = numBits - ?k"
        using assms by simp
      ultimately show ?thesis
        using step r2 by (simp add: readBits_def avail_value_def)
    qed
  qed
qed

theorem readBits_past_end_witness:
  "\<not> r_endOfFile (BitReader_new [0xFF]) \<and>
   r_bitsInBuffer (BitReader_new [0xFF]) + 8 * length (r_input (BitReader_new [0xFF])) < 9 \<and>
   (9 :: nat) \<le> 32 \<and>
   fst (readBits (BitReader_new [0xFF]) 9) = push_bit 1 (avail_value (BitReader_new [0xFF]))"
proof -
  have h1: "\<not> r_endOfFile (BitReader_new [0xFF])"
    by (simp add: BitReader_new_def)
  have h2: "r_bitsInBuffer (BitReader_new [0xFF]) + 8 * length (r_input (BitReader_new [0xFF])) < 9"
    by (simp add: BitReader_new_def)
  have h3: "(9 :: nat) \<le> 32"
    by simp
  have "(9 :: nat) - (r_bitsInBuffer (BitReader_new [0xFF]) + 8 * length (r_input (BitReader_new [0xFF]))) = 1"
    by (simp add: BitReader_new_def)
  with readBits_past_end [OF h1 h2 h3] h1 h2 h3 show ?thesis
    by simp
qed



section \<open>LZW codec (lzw.cpp)\<close>

text \<open>
  The constants of lzw.h.  They are \<open>uint16_t\<close>, as are \<open>nextCode\<close> and
  \<open>codeWidth\<close>; \<open>nextCode\<close> is incremented only while it is below \<open>2 ^ 15\<close>, so no
  value leaves the 16-bit range and the model counts in \<open>nat\<close>.
\<close>

definition INITIAL_CODE_WIDTH :: nat where "INITIAL_CODE_WIDTH = 9"
definition MAX_CODE_WIDTH :: nat where "MAX_CODE_WIDTH = 15"
definition MAX_DICTIONARY_SIZE :: nat where "MAX_DICTIONARY_SIZE = 2 ^ 15"
definition CLEAR_CODE :: nat where "CLEAR_CODE = 256"
definition STOP_CODE :: nat where "STOP_CODE = 257"
definition FIRST_CODE :: nat where "FIRST_CODE = 258"

text \<open>
  \<open>CompressionDictionary\<close> is an \<open>unordered_map\<close> from strings to codes;
  \<open>buildCompressionDictionary\<close> enters the 256 one-byte strings.
\<close>

type_synonym CompressionDictionary = "byte list \<rightharpoonup> nat"

definition buildCompressionDictionary :: CompressionDictionary where
  "buildCompressionDictionary = fold (\<lambda>i dict. dict([of_nat i] \<mapsto> i)) [0..<256] Map.empty"

text \<open>\<open>dict[key]\<close> on an \<open>unordered_map\<close>: a missing key is entered with the value 0.\<close>

definition dict_index :: "CompressionDictionary \<Rightarrow> byte list \<Rightarrow> nat \<times> CompressionDictionary" where
  "dict_index dict key = (case dict key of Some c \<Rightarrow> (c, dict) | None \<Rightarrow> (0, dict(key \<mapsto> 0)))"

text \<open>
  \<open>DecompressionDictionary\<close> is a \<open>vector\<close> of strings;
  \<open>buildDecompressionDictionary\<close> pushes the 256 one-byte strings and two empty strings
  (the places of the two control codes).
\<close>

type_synonym DecompressionDictionary = "byte list list"

definition buildDecompressionDictionary :: DecompressionDictionary where
  "buildDecompressionDictionary = map (\<lambda>i. [of_nat i]) [0..<256] @ [[], []]"

text \<open>
  The width rule, the same two lines in \<open>compressData\<close> and in \<open>decompressData\<close>,
  run right after \<open>nextCode\<close> has been incremented.
\<close>

definition widen :: "nat \<Rightarrow> nat \<Rightarrow> nat" where
  "widen nextCode codeWidth =
     (if nextCode > 2 ^ codeWidth \<and> codeWidth < MAX_CODE_WIDTH then codeWidth + 1 else codeWidth)"

text \<open>
  The read loop of \<open>LZWCompressor::compressData\<close> and the two writes after it.  The
  function uses the writer only through \<open>writeBits\<close>, the parameter \<open>wr\<close>; the list is
  what is still unread of the input.
\<close>

fun compress_loop ::
  "('w \<Rightarrow> u32 \<Rightarrow> nat \<Rightarrow> 'w) \<Rightarrow> CompressionDictionary \<Rightarrow> nat \<Rightarrow> nat \<Rightarrow> byte list \<Rightarrow> byte list \<Rightarrow> 'w \<Rightarrow> 'w"
where
  "compress_loop wr dict nextCode codeWidth current [] w =
     (let w1 = (if current \<noteq> [] then wr w (of_nat (fst (dict_index dict current))) codeWidth else w)
      in wr w1 (of_nat STOP_CODE) codeWidth)"
| "compress_loop wr dict nextCode codeWidth current (ch # rest) w =
     (let next = current @ [ch] in
      if dict next \<noteq> None then compress_loop wr dict nextCode codeWidth next rest w
      else
        let (c, dict1) = dict_index dict current;
            w1 = wr w (of_nat c) codeWidth
        in if nextCode < MAX_DICTIONARY_SIZE then
             let dict2 = dict1(next \<mapsto> nextCode);
                 nextCode' = nextCode + 1;
                 codeWidth' = widen nextCode' codeWidth
             in compress_loop wr dict2 nextCode' codeWidth' [ch] rest w1
           else
             let w2 = wr w1 (of_nat CLEAR_CODE) codeWidth
             in compress_loop wr buildCompressionDictionary FIRST_CODE INITIAL_CODE_WIDTH [ch] rest w2)"

definition compressData :: "('w \<Rightarrow> u32 \<Rightarrow> nat \<Rightarrow> 'w) \<Rightarrow> byte list \<Rightarrow> 'w \<Rightarrow> bool \<times> 'w" where
  "compressData wr input w =
     (True, compress_loop wr buildCompressionDictionary FIRST_CODE INITIAL_CODE_WIDTH [] input w)"

text \<open>
  \<open>LZWCompressor::compress\<close> on files that can be opened.  The function closes
  \<open>output\<close> itself; the \<open>BitWriter\<close> is a local declared after \<open>output\<close>, so its
  destructor, which calls \<open>flush\<close>, runs when the function returns: after the close.
\<close>

definition lzw_compress :: "byte list \<Rightarrow> bool \<times> byte list" where
  "lzw_compress input =
     (let writer = BitWriter_new ofstream_new;
          (success, writer1) = compressData writeBits input writer;
          writer2 = writer1\<lparr>w_output := ofstream_close (w_output writer1)\<rparr>;
          writer3 = flush writer2
      in (success, os_data (w_output writer3)))"

text \<open>
  What \<open>compressData\<close> followed by \<open>flush\<close> puts on a stream that is still open: the
  bit stream of section 6.3 of the specification.
\<close>

definition lzw_encode :: "byte list \<Rightarrow> byte list" where
  "lzw_encode input =
     os_data (w_output (flush (snd (compressData writeBits input (BitWriter_new ofstream_new)))))"

text \<open>
  The results of decoding that are not output: \<open>return false\<close> after the message
  "Invalid LZW code", and an index past the end of the dictionary vector (undefined
  behaviour in C++).
\<close>

datatype lzw_error = InvalidCode | OutOfBounds

text \<open>
  \<open>s[0]\<close> on a \<open>std::string\<close>: the first character, and the terminating zero when
  the string is empty.
\<close>

definition front :: "byte list \<Rightarrow> byte" where
  "front s = (case s of [] \<Rightarrow> 0 | c # _ \<Rightarrow> c)"

text \<open>
  The \<open>while (reader.hasData())\<close> loop of \<open>LZWCompressor::decompressData\<close>.  The
  reader is used through \<open>readBits\<close> and \<open>hasData\<close> only, the parameters \<open>rd\<close> and
  \<open>has\<close>; a code is a \<open>uint16_t\<close> taken from the \<open>uint32_t\<close> that \<open>readBits\<close>
  returns.  \<open>out\<close> is what has been written to the output file.  The loop need not end
  (a reader that keeps saying it has data and keeps returning 0), so the function is
  partial: \<open>None\<close> is a run that never returns.  The result carries the reader as the
  loop leaves it.
\<close>

partial_function (option) decompress_loop ::
  "('r \<Rightarrow> nat \<Rightarrow> u32 \<times> 'r) \<Rightarrow> ('r \<Rightarrow> bool) \<Rightarrow> DecompressionDictionary \<Rightarrow> nat \<Rightarrow> nat \<Rightarrow>
     byte list \<Rightarrow> 'r \<Rightarrow> byte list \<Rightarrow> ((lzw_error + byte list) \<times> 'r) option"
where
  "decompress_loop rd has dict nextCode codeWidth prevString r out =
     (if has r then
        (case rd r codeWidth of (v, r1) \<Rightarrow>
          let code = unat (ucast v :: 16 word) in
          if code = STOP_CODE then Some (Inr out, r1)
          else if code = CLEAR_CODE then
            (case rd r1 INITIAL_CODE_WIDTH of (v2, r2) \<Rightarrow>
              let prevCode = unat (ucast v2 :: 16 word) in
              if prevCode = STOP_CODE then Some (Inr out, r2)
              else if prevCode < length buildDecompressionDictionary then
                decompress_loop rd has buildDecompressionDictionary FIRST_CODE INITIAL_CODE_WIDTH
                  (buildDecompressionDictionary ! prevCode) r2
                  (out @ buildDecompressionDictionary ! prevCode)
              else Some (Inl OutOfBounds, r2))
          else if code < length dict \<or> code = nextCode then
            (let currentString = (if code < length dict then dict ! code else prevString @ [front prevString]);
                 out1 = out @ currentString
             in if nextCode < MAX_DICTIONARY_SIZE then
                  decompress_loop rd has (dict @ [prevString @ [front currentString]]) (nextCode + 1)
                    (widen (nextCode + 1) codeWidth) currentString r1 out1
                else decompress_loop rd has dict nextCode codeWidth currentString r1 out1)
          else Some (Inl InvalidCode, r1))
      else Some (Inr out, r))"

declare decompress_loop.simps [code]

text \<open>\<open>LZWCompressor::decompressData\<close>: the first code, then the loop.\<close>

definition decompressData ::
  "('r \<Rightarrow> nat \<Rightarrow> u32 \<times> 'r) \<Rightarrow> ('r \<Rightarrow> bool) \<Rightarrow> 'r \<Rightarrow> ((lzw_error + byte list) \<times> 'r) option" where
  "decompressData rd has r =
     (case rd r INITIAL_CODE_WIDTH of (v, r1) \<Rightarrow>
        let prevCode = unat (ucast v :: 16 word) in
        if prevCode = STOP_CODE then Some (Inr [], r1)
        else if prevCode \<ge> length buildDecompressionDictionary then Some (Inl InvalidCode, r1)
        else decompress_loop rd has buildDecompressionDictionary FIRST_CODE INITIAL_CODE_WIDTH
               (buildDecompressionDictionary ! prevCode) r1 (buildDecompressionDictionary ! prevCode))"

text \<open>\<open>LZWCompressor::decompress\<close> on files that can be opened.\<close>

definition lzw_decompress :: "byte list \<Rightarrow> (lzw_error + byte list) option" where
  "lzw_decompress input = map_option fst (decompressData readBits hasData (BitReader_new input))"

text \<open>
  Two stand-ins for the bit stream, to look at the codes themselves: a writer that only
  records each call of \<open>writeBits\<close> (value and width), and a reader that hands out a given
  list of codes one per call of \<open>readBits\<close>, whatever the width, and records the widths
  it was asked for.
\<close>

definition log_write :: "(u32 \<times> nat) list \<Rightarrow> u32 \<Rightarrow> nat \<Rightarrow> (u32 \<times> nat) list" where
  "log_write lg v n = lg @ [(v, n)]"

definition feed_read :: "u32 list \<times> nat list \<Rightarrow> nat \<Rightarrow> u32 \<times> (u32 list \<times> nat list)" where
  "feed_read s n = (case fst s of [] \<Rightarrow> (0, ([], snd s @ [n])) | c # cs \<Rightarrow> (c, (cs, snd s @ [n])))"

definition feed_has :: "u32 list \<times> nat list \<Rightarrow> bool" where
  "feed_has s = (fst s \<noteq> [])"

definition encoder_trace :: "byte list \<Rightarrow> (u32 \<times> nat) list" where
  "encoder_trace input = snd (compressData log_write input [])"

definition decoder_widths :: "u32 list \<Rightarrow> nat list option" where
  "decoder_widths codes = map_option (\<lambda>(res, s). snd s) (decompressData feed_read feed_has (codes, []))"


section \<open>LZW codec: properties\<close>

lemma seed_fold:
  "n \<le> 256 \<Longrightarrow> fold (\<lambda>i dict. dict([of_nat i :: byte] \<mapsto> i)) [0..<n] Map.empty key =
     (case key of [] \<Rightarrow> None | [b] \<Rightarrow> if unat b < n then Some (unat b) else None | b # c # r \<Rightarrow> None)"
proof (induction n)
  case 0
  show ?case by (simp split: list.split)
next
  case (Suc n)
  then have n: "n < 256" by simp
  have eq: "(b = (of_nat n :: byte)) = (unat b = n)" for b :: byte
  proof
    assume "b = (of_nat n :: byte)"
    then show "unat b = n" using n by (simp add: unat_of_nat)
  next
    assume "unat b = n"
    then show "b = (of_nat n :: byte)" by auto
  qed
  have un: "unat (of_nat n :: byte) = n"
    using n by (simp add: unat_of_nat)
  show ?case
    using Suc.IH n by (auto simp: eq un split: list.split)
qed

lemma seed_lookup:
  "buildCompressionDictionary key = (case key of [] \<Rightarrow> None | [b] \<Rightarrow> Some (unat b) | b # c # r \<Rightarrow> None)"
proof -
  have "unat b < 256" for b :: byte
    using unsigned_less [of b, where 'a = nat] by simp
  then show ?thesis
    unfolding buildCompressionDictionary_def
    by (simp add: seed_fold split: list.split)
qed

lemma seed_length: "length buildDecompressionDictionary = 258"
  by (simp add: buildDecompressionDictionary_def)

lemma seed_nth: "i < 256 \<Longrightarrow> buildDecompressionDictionary ! i = [of_nat i]"
  by (simp add: buildDecompressionDictionary_def nth_append)


text \<open>
  C10 (the code at the failing input).  The four bytes \<open>20 C0 25 80\<close> are the 9-bit
  codes 65, 256 (CLEAR) and 300.  After the CLEAR the dictionary has 258 entries again and
  the code 300 read next is used as an index without the test that the first code of the
  stream gets.
\<close>

theorem lzw_index_after_clear:
  "read_all [0x20, 0xC0, 0x25, 0x80] [9, 9, 9] = [65, 256, 300] \<and>
   length buildDecompressionDictionary = 258 \<and>
   lzw_decompress [0x20, 0xC0, 0x25, 0x80] = Some (Inl OutOfBounds)"
  by code_simp

text \<open>
  What \<open>LZWCompressor::compress\<close> writes for the empty input, with its flush after
  the close, and what \<open>LZWCompressor::decompress\<close> makes of an empty file.
\<close>

lemma lzw_empty_file:
  "lzw_compress [] = (True, []) \<and> lzw_decompress [] = Some (Inr [0])"
  by code_simp


lemma code_of_small:
  assumes "i < 65536"
  shows "unat (ucast (of_nat i :: u32) :: 16 word) = i"
proof -
  have "unat (of_nat i :: u32) = i"
    using assms by (simp add: unat_of_nat)
  then have "take_bit 16 (unat (of_nat i :: u32)) = i"
    using assms by (simp add: take_bit_nat_eq_self)
  then show ?thesis
    by (simp add: unsigned_ucast_eq)
qed

lemma feed_step:
  "feed_read (c # cs, ws) n = (c, (cs, ws @ [n]))" "feed_has (c # cs, ws)"
  by (simp_all add: feed_read_def feed_has_def)

lemma widen_9: "nc \<le> 512 \<Longrightarrow> widen nc 9 = 9"
  by (simp add: widen_def)

lemma dec_plain_step:
  assumes "unat (ucast c :: 16 word) < 256" and "258 \<le> length dict" and "nc < 32768"
  shows "decompress_loop feed_read feed_has dict nc w prev (c # cs, ws) out =
         decompress_loop feed_read feed_has
           (dict @ [prev @ [front (dict ! unat (ucast c :: 16 word))]]) (nc + 1) (widen (nc + 1) w)
           (dict ! unat (ucast c :: 16 word)) (cs, ws @ [w]) (out @ dict ! unat (ucast c :: 16 word))"
  using assms
  by (subst decompress_loop.simps)
    (simp add: feed_step Let_def STOP_CODE_def CLEAR_CODE_def MAX_DICTIONARY_SIZE_def)

lemma dec_plain_run:
  assumes "\<forall>c \<in> set cs. unat (ucast c :: 16 word) < 256"
    and "258 \<le> length dict" and "nc + length cs \<le> 512"
  shows "\<exists>dict' prev' out'. length dict' = length dict + length cs \<and>
           decompress_loop feed_read feed_has dict nc 9 prev (cs @ rest, ws) out =
           decompress_loop feed_read feed_has dict' (nc + length cs) 9 prev'
             (rest, ws @ replicate (length cs) 9) out'"
  using assms
proof (induction cs arbitrary: dict nc prev ws out)
  case Nil
  show ?case by auto
next
  case (Cons c cs)
  let ?k = "unat (ucast c :: 16 word)"
  let ?dict1 = "dict @ [prev @ [front (dict ! ?k)]]"
  have step: "decompress_loop feed_read feed_has dict nc 9 prev ((c # cs) @ rest, ws) out =
        decompress_loop feed_read feed_has ?dict1 (nc + 1) 9 (dict ! ?k) (cs @ rest, ws @ [9]) (out @ dict ! ?k)"
    using Cons.prems dec_plain_step [of c dict nc 9 prev "cs @ rest" ws out]
    by (simp add: widen_9)
  have "\<exists>dict' prev' out'. length dict' = length ?dict1 + length cs \<and>
           decompress_loop feed_read feed_has ?dict1 (nc + 1) 9 (dict ! ?k) (cs @ rest, ws @ [9]) (out @ dict ! ?k) =
           decompress_loop feed_read feed_has dict' (nc + 1 + length cs) 9 prev'
             (rest, (ws @ [9]) @ replicate (length cs) 9) out'"
    using Cons.prems by (intro Cons.IH) auto
  then obtain dict' prev' out' where
    "length dict' = length ?dict1 + length cs"
    "decompress_loop feed_read feed_has ?dict1 (nc + 1) 9 (dict ! ?k) (cs @ rest, ws @ [9]) (out @ dict ! ?k) =
           decompress_loop feed_read feed_has dict' (nc + 1 + length cs) 9 prev'
             (rest, (ws @ [9]) @ replicate (length cs) 9) out'"
    by blast
  with step show ?case
    by (intro exI [of _ dict'] exI [of _ prev'] exI [of _ out']) (simp add: replicate_append_same)
qed


lemma upt_256: "[0..<256] = 0 # [1..<255] @ [255]"
proof -
  have "[1..<Suc 255] = [1..<255] @ [255]"
    by (rule upt_Suc_append) simp
  moreover have "[0..<256] = 0 # [Suc 0..<256]"
    by (rule upt_conv_Cons) simp
  ultimately show ?thesis
    by simp
qed

lemma decoder_widths_run:
  "decoder_widths (map of_nat [0..<256] @ [0, 257]) = Some (replicate 256 9 @ [10, 10])"
proof -
  let ?cs = "map of_nat [1..<255] :: u32 list"
  let ?seed = buildDecompressionDictionary
  have plain: "\<forall>c \<in> set ?cs. unat (ucast c :: 16 word) < 256"
    by (auto simp: code_of_small)
  have codes: "map of_nat [0..<256] @ [0, 257] = (0 :: u32) # ?cs @ [255, 0, 257]"
    by (simp add: upt_256)
  have first: "decompressData feed_read feed_has (0 # ?cs @ [255, 0, 257], []) =
        decompress_loop feed_read feed_has ?seed 258 9 (?seed ! 0) (?cs @ [255, 0, 257], [9]) (?seed ! 0)"
    by (simp add: decompressData_def feed_step seed_length INITIAL_CODE_WIDTH_def STOP_CODE_def FIRST_CODE_def)
  have "\<exists>dict' prev' out'. length dict' = length ?seed + length ?cs \<and>
           decompress_loop feed_read feed_has ?seed 258 9 (?seed ! 0) (?cs @ [255, 0, 257], [9]) (?seed ! 0) =
           decompress_loop feed_read feed_has dict' (258 + length ?cs) 9 prev'
             ([255, 0, 257], [9] @ replicate (length ?cs) 9) out'"
    using plain by (intro dec_plain_run) (simp_all add: seed_length)
  then obtain dict' prev' out' where len: "length dict' = 512"
    and run: "decompress_loop feed_read feed_has ?seed 258 9 (?seed ! 0) (?cs @ [255, 0, 257], [9]) (?seed ! 0) =
           decompress_loop feed_read feed_has dict' 512 9 prev' ([255, 0, 257], replicate 255 9) out'"
    by (auto simp: seed_length simp flip: replicate_Suc)
  have c255: "unat (ucast (255 :: u32) :: 16 word) = 255" and c0: "unat (ucast (0 :: u32) :: 16 word) = 0"
    and c257: "unat (ucast (257 :: u32) :: 16 word) = 257"
    by simp_all
  let ?d1 = "dict' @ [prev' @ [front (dict' ! 255)]]"
  have s1: "decompress_loop feed_read feed_has dict' 512 9 prev' ([255, 0, 257], replicate 255 9) out' =
        decompress_loop feed_read feed_has ?d1 513 10 (dict' ! 255) ([0, 257], replicate 255 9 @ [9]) (out' @ dict' ! 255)"
    using dec_plain_step [of 255 dict' 512 9 prev' "[0, 257]" "replicate 255 9" out'] len
    by (simp add: c255 widen_def MAX_CODE_WIDTH_def)
  let ?d2 = "?d1 @ [dict' ! 255 @ [front (?d1 ! 0)]]"
  have s2: "decompress_loop feed_read feed_has ?d1 513 10 (dict' ! 255) ([0, 257], replicate 255 9 @ [9]) (out' @ dict' ! 255) =
        decompress_loop feed_read feed_has ?d2 514 10 (?d1 ! 0) ([257], replicate 255 9 @ [9, 10]) (out' @ dict' ! 255 @ ?d1 ! 0)"
    using dec_plain_step [of 0 ?d1 513 10 "dict' ! 255" "[257]" "replicate 255 9 @ [9]" "out' @ dict' ! 255"] len
    by (simp add: c0 widen_def MAX_CODE_WIDTH_def)
  have s3: "decompress_loop feed_read feed_has ?d2 514 10 (?d1 ! 0) ([257], replicate 255 9 @ [9, 10]) (out' @ dict' ! 255 @ ?d1 ! 0) =
        Some (Inr (out' @ dict' ! 255 @ ?d1 ! 0), ([], replicate 255 9 @ [9, 10, 10]))"
    by (subst decompress_loop.simps) (simp add: feed_step c257 STOP_CODE_def)
  have "replicate 256 (9 :: nat) = 9 # replicate 255 9"
    using replicate_Suc [of 255 "9 :: nat"] by simp
  then have "replicate 255 9 @ [9, 10, 10] = replicate 256 (9 :: nat) @ [10, 10]"
    using replicate_append_same [of 255 "9 :: nat"] by simp
  with first run s1 s2 s3 show ?thesis
    by (simp add: decoder_widths_def codes)
qed

lemma enc_step:
  assumes "\<forall>b. D [b] = Some (unat b)" and "D [x, ch] = None" and "nc < 32768"
  shows "compress_loop log_write D nc w [x] (ch # rest) lg =
         compress_loop log_write (D([x, ch] \<mapsto> nc)) (nc + 1) (widen (nc + 1) w) [ch] rest
           (lg @ [(ucast x, w)])"
  using assms
  by (simp add: dict_index_def log_write_def MAX_DICTIONARY_SIZE_def)

lemma enc_run:
  assumes "\<forall>b. D [b] = Some (unat b)" and "\<forall>x y. D [x, y] \<noteq> None \<longrightarrow> unat x < c"
    and "c + n < 256" and "nc + n \<le> 512"
  shows "\<exists>D'. (\<forall>b. D' [b] = Some (unat b)) \<and> (\<forall>x y. D' [x, y] \<noteq> None \<longrightarrow> unat x < c + n) \<and>
           compress_loop log_write D nc 9 [of_nat c] (map of_nat [Suc c..<Suc c + n] @ rest) lg =
           compress_loop log_write D' (nc + n) 9 [of_nat (c + n)] rest
             (lg @ map (\<lambda>i. (of_nat i, 9)) [c..<c + n])"
  using assms
proof (induction n arbitrary: D c nc lg)
  case 0
  then show ?case by auto
next
  case (Suc n)
  let ?x = "of_nat c :: byte" and ?ch = "of_nat (Suc c) :: byte"
  let ?D1 = "D([?x, ?ch] \<mapsto> nc)"
  have ux: "unat ?x = c"
    using Suc.prems by (subst unat_of_nat) simp
  have uch: "unat ?ch = Suc c"
    using Suc.prems by (subst unat_of_nat) simp
  have "unat (ucast ?x :: u32) = unat (of_nat c :: u32)"
    using Suc.prems(3) by (simp add: unsigned_ucast_eq ux unat_of_nat take_bit_nat_eq_self)
  then have uc: "(ucast ?x :: u32) = of_nat c"
    by (simp only: word_unat_eq_iff)
  have none: "D [?x, ?ch] = None"
    using Suc.prems(2) ux by force
  have "[Suc c..<Suc c + Suc n] = Suc c # [Suc (Suc c)..<Suc c + Suc n]"
    by (rule upt_conv_Cons) simp
  then have "[Suc c..<Suc c + Suc n] = Suc c # [Suc (Suc c)..<Suc (Suc c) + n]"
    by simp
  then have list: "map of_nat [Suc c..<Suc c + Suc n] @ rest = ?ch # map of_nat [Suc (Suc c)..<Suc (Suc c) + n] @ rest"
    by (simp only: list.map append_Cons)
  have step: "compress_loop log_write D nc 9 [?x] (?ch # map of_nat [Suc (Suc c)..<Suc (Suc c) + n] @ rest) lg =
        compress_loop log_write ?D1 (nc + 1) 9 [?ch] (map of_nat [Suc (Suc c)..<Suc (Suc c) + n] @ rest)
          (lg @ [(of_nat c, 9)])"
    using enc_step [OF Suc.prems(1) none, of nc 9 _ lg] Suc.prems(4)
    by (simp add: widen_9 uc)
  have inv1: "\<forall>b. ?D1 [b] = Some (unat b)"
    using Suc.prems(1) by simp
  have inv2: "\<forall>x y. ?D1 [x, y] \<noteq> None \<longrightarrow> unat x < Suc c"
    using Suc.prems(2) ux by (auto simp: less_Suc_eq)
  have "\<exists>D'. (\<forall>b. D' [b] = Some (unat b)) \<and> (\<forall>x y. D' [x, y] \<noteq> None \<longrightarrow> unat x < Suc c + n) \<and>
           compress_loop log_write ?D1 (nc + 1) 9 [of_nat (Suc c)] (map of_nat [Suc (Suc c)..<Suc (Suc c) + n] @ rest) (lg @ [(of_nat c, 9)]) =
           compress_loop log_write D' (nc + 1 + n) 9 [of_nat (Suc c + n)] rest
             ((lg @ [(of_nat c, 9)]) @ map (\<lambda>i. (of_nat i, 9)) [Suc c..<Suc c + n])"
    using Suc.prems(3,4) by (intro Suc.IH [OF inv1 inv2]) simp_all
  then obtain D' where D': "\<forall>b. D' [b] = Some (unat b)" "\<forall>x y. D' [x, y] \<noteq> None \<longrightarrow> unat x < Suc c + n"
    "compress_loop log_write ?D1 (nc + 1) 9 [of_nat (Suc c)] (map of_nat [Suc (Suc c)..<Suc (Suc c) + n] @ rest) (lg @ [(of_nat c, 9)]) =
           compress_loop log_write D' (nc + 1 + n) 9 [of_nat (Suc c + n)] rest
             ((lg @ [(of_nat c, 9)]) @ map (\<lambda>i. (of_nat i, 9)) [Suc c..<Suc c + n])"
    by blast
  have "[c..<c + Suc n] = c # [Suc c..<c + Suc n]"
    by (rule upt_conv_Cons) simp
  then have "[c..<c + Suc n] = c # [Suc c..<Suc c + n]"
    by simp
  with list step D' show ?case
    by (intro exI [of _ D']) (simp del: upt_Suc of_nat_Suc)
qed


lemma encoder_trace_run:
  "encoder_trace (map of_nat [0..<256] @ [0]) =
     map (\<lambda>i. (of_nat i, 9)) [0..<255] @ [(255, 10), (0, 10), (257, 10)]"
proof -
  let ?seed = buildCompressionDictionary
  let ?lg = "map (\<lambda>i. (of_nat i :: u32, 9 :: nat)) [0..<254]"
  have input: "map of_nat [0..<256] @ [0] = (0 :: byte) # map of_nat [Suc 0..<Suc 0 + 254] @ [255, 0]"
    by (simp add: upt_256)
  have first: "compress_loop log_write ?seed 258 9 [] (0 # map of_nat [Suc 0..<Suc 0 + 254] @ [255, 0]) [] =
        compress_loop log_write ?seed 258 9 [of_nat 0] (map of_nat [Suc 0..<Suc 0 + 254] @ [255, 0]) []"
    by (simp add: seed_lookup Let_def)
  have inv1: "\<forall>b. ?seed [b] = Some (unat b)" and inv2: "\<forall>x y. ?seed [x, y] \<noteq> None \<longrightarrow> unat x < 0"
    by (simp_all add: seed_lookup)
  have "\<exists>D'. (\<forall>b. D' [b] = Some (unat b)) \<and> (\<forall>x y. D' [x, y] \<noteq> None \<longrightarrow> unat x < 0 + 254) \<and>
           compress_loop log_write ?seed 258 9 [of_nat 0] (map of_nat [Suc 0..<Suc 0 + 254] @ [255, 0]) [] =
           compress_loop log_write D' (258 + 254) 9 [of_nat (0 + 254)] [255, 0]
             ([] @ map (\<lambda>i. (of_nat i, 9)) [0..<0 + 254])"
    by (rule enc_run [OF inv1 inv2]) simp_all
  then obtain D' where single: "\<forall>b. D' [b] = Some (unat b)"
    and pairs: "\<forall>x y. D' [x, y] \<noteq> None \<longrightarrow> unat x < 254"
    and run: "compress_loop log_write ?seed 258 9 [of_nat 0] (map of_nat [Suc 0..<Suc 0 + 254] @ [255, 0]) [] =
           compress_loop log_write D' 512 9 [254] [255, 0] ?lg"
    by auto
  have n1: "D' [254, 255] = None"
    using pairs by force
  let ?D1 = "D'([254, 255] \<mapsto> 512)"
  have s1: "compress_loop log_write D' 512 9 [254] [255, 0] ?lg =
        compress_loop log_write ?D1 513 10 [255] [0] (?lg @ [(254, 9)])"
    using enc_step [where D = D' and x = 254 and ch = 255 and nc = 512 and w = 9 and rest = "[0]"
        and lg = ?lg] single n1
    by (simp add: widen_def MAX_CODE_WIDTH_def del: compress_loop.simps)
  have single1: "\<forall>b. ?D1 [b] = Some (unat b)"
    using single by simp
  have n2: "?D1 [255, 0] = None"
    using pairs by force
  let ?D2 = "?D1([255, 0] \<mapsto> 513)"
  have s2: "compress_loop log_write ?D1 513 10 [255] [0] (?lg @ [(254, 9)]) =
        compress_loop log_write ?D2 514 10 [0] [] (?lg @ [(254, 9), (255, 10)])"
    using enc_step [where D = ?D1 and x = 255 and ch = 0 and nc = 513 and w = 10 and rest = "[]"
        and lg = "?lg @ [(254, 9)]"] single1 n2
    by (simp add: widen_def MAX_CODE_WIDTH_def del: compress_loop.simps)
  have "?D2 [0] = Some 0"
    using single by simp
  then have s3: "compress_loop log_write ?D2 514 10 [0] [] (?lg @ [(254, 9), (255, 10)]) =
        ?lg @ [(254, 9), (255, 10), (0, 10), (257, 10)]"
    by (simp add: dict_index_def log_write_def STOP_CODE_def)
  have "[0..<Suc 254] = [0..<254] @ [254]"
    by (rule upt_Suc_append) simp
  then have last: "?lg @ [(254, 9), (255, 10), (0, 10), (257, 10)] =
      map (\<lambda>i. (of_nat i :: u32, 9 :: nat)) [0..<255] @ [(255, 10), (0, 10), (257, 10)]"
    by simp
  have "encoder_trace (map of_nat [0..<256] @ [0]) =
        compress_loop log_write ?seed 258 9 [] (0 # map of_nat [Suc 0..<Suc 0 + 254] @ [255, 0]) []"
    by (simp only: encoder_trace_def compressData_def input snd_conv FIRST_CODE_def INITIAL_CODE_WIDTH_def)
  also note first
  also note run
  also note s1
  also note s2
  also note s3
  also note last
  finally show ?thesis .
qed

text \<open>
  C3 (the code at the failing input).  The input is the 256 bytes \<open>00 .. FF\<close> followed
  by \<open>00\<close>; it makes 256 new dictionary entries.  The encoder writes its first 255 codes
  at width 9 and, having made its 255th entry (\<open>nextCode = 513\<close>), the 256th code (the
  value 255) and all later ones at width 10.  The decoder makes its first entry only with
  the second code it reads, so after 255 codes its \<open>nextCode\<close> is 512 and it asks for
  the 256th code at width 9; it widens one code later than the encoder.
\<close>

theorem lzw_width_mismatch:
  "encoder_trace (map of_nat [0..<256] @ [0]) =
     map (\<lambda>i. (of_nat i, 9)) [0..<255] @ [(255, 10), (0, 10), (257, 10)] \<and>
   decoder_widths (map fst (encoder_trace (map of_nat [0..<256] @ [0]))) =
     Some (replicate 256 9 @ [10, 10]) \<and>
   encoder_trace (map of_nat [0..<256] @ [0]) ! 255 = (255, 10) \<and>
   (replicate 256 9 @ [10, 10 :: nat]) ! 255 = 9"
proof -
  let ?trace = "map (\<lambda>i. (of_nat i :: u32, 9 :: nat)) [0..<255] @ [(255, 10), (0, 10), (257, 10)]"
  have "[0..<Suc 255] = [0..<255] @ [255]"
    by (rule upt_Suc_append) simp
  then have "map of_nat [0..<256] = map of_nat [0..<255] @ [255 :: u32]"
    by simp
  then have codes: "map fst ?trace = map of_nat [0..<256] @ [0, 257]"
    by (simp add: comp_def)
  have a: "decoder_widths (map fst (encoder_trace (map of_nat [0..<256] @ [0]))) =
      Some (replicate 256 9 @ [10, 10])"
    by (simp only: encoder_trace_run codes decoder_widths_run)
  have b: "?trace ! 255 = (255, 10)"
    by (simp add: nth_append)
  have c: "(replicate 256 9 @ [10, 10 :: nat]) ! 255 = 9"
    by (simp add: nth_append)
  from a b c show ?thesis
    by (simp only: encoder_trace_run)
qed



section \<open>Huffman codec (huffman.h, huffman.cpp)\<close>

text \<open>
  \<open>HuffmanTree\<close> is a \<open>shared_ptr\<close> to a \<open>HuffmanNode\<close>: \<open>Null\<close> is the null
  pointer and \<open>Node character frequency left right\<close> a pointer to a node with these four
  fields.  \<open>frequency\<close> is an \<open>int\<close> that holds a count; it is a natural number here,
  which is exact as long as the counts stay below \<open>2 ^ 31\<close>.  The two constructors of
  \<open>HuffmanNode\<close> are \<open>leaf\<close> and \<open>internal\<close>.
\<close>

datatype HuffmanTree = Null | Node byte nat HuffmanTree HuffmanTree

definition leaf :: "byte \<Rightarrow> nat \<Rightarrow> HuffmanTree" where
  "leaf ch freq = Node ch freq Null Null"

definition internal :: "nat \<Rightarrow> HuffmanTree \<Rightarrow> HuffmanTree \<Rightarrow> HuffmanTree" where
  "internal freq l r = Node 0 freq l r"

text \<open>
  The fields read through a pointer.  The code never reads them through a null pointer
  where these functions are used; the value given for \<open>Null\<close> is never looked at.
\<close>

fun character :: "HuffmanTree \<Rightarrow> byte" where
  "character (Node ch freq l r) = ch"
| "character Null = 0"

fun frequency :: "HuffmanTree \<Rightarrow> nat" where
  "frequency (Node ch freq l r) = freq"
| "frequency Null = 0"

fun isLeaf :: "HuffmanTree \<Rightarrow> bool" where
  "isLeaf (Node ch freq l r) = (l = Null \<and> r = Null)"
| "isLeaf Null = False"

text \<open>\<open>HuffmanNodeComparator::operator()\<close>.\<close>

definition HuffmanNodeComparator :: "HuffmanTree \<Rightarrow> HuffmanTree \<Rightarrow> bool" where
  "HuffmanNodeComparator a b =
     (if frequency a = frequency b then character a > character b
      else frequency a > frequency b)"

text \<open>
  \<open>FrequencyTable\<close> is an \<open>unordered_map\<close> from bytes to counts: a list of pairs
  with distinct keys.  \<open>frequencies[ch]++\<close> enters a missing key with count 0 first.
\<close>

type_synonym FrequencyTable = "(byte \<times> nat) list"

fun bump :: "byte \<Rightarrow> FrequencyTable \<Rightarrow> FrequencyTable" where
  "bump ch [] = [(ch, 1)]"
| "bump ch ((k, v) # rest) = (if k = ch then (k, v + 1) # rest else (k, v) # bump ch rest)"

definition buildFrequencyTable :: "byte list \<Rightarrow> FrequencyTable" where
  "buildFrequencyTable input = fold bump input []"

text \<open>
  \<open>PriorityQueue\<close> is a \<open>std::priority_queue\<close> with \<open>HuffmanNodeComparator\<close>:
  \<open>top()\<close> is an element that the comparator puts below no other element, that is, one
  of least frequency and, among leaves of that frequency, of least character.  The
  comparator cannot tell two internal nodes of the same frequency apart (their
  \<open>character\<close> is 0); which of several such elements \<open>top()\<close> returns depends on the
  layout of the heap, and on the order in which the \<open>unordered_map\<close> was traversed.  The
  model keeps the elements in a list and leaves that choice to a parameter \<open>tie\<close>, a
  function of the queue that picks among the candidates; every statement below holds for
  every \<open>tie\<close>.
\<close>

type_synonym PriorityQueue = "HuffmanTree list"

definition is_top :: "PriorityQueue \<Rightarrow> HuffmanTree \<Rightarrow> bool" where
  "is_top pq x = list_all (\<lambda>y. \<not> HuffmanNodeComparator x y) pq"

definition top_candidates :: "PriorityQueue \<Rightarrow> nat list" where
  "top_candidates pq = filter (\<lambda>i. is_top pq (pq ! i)) [0..<length pq]"

definition top_index :: "(PriorityQueue \<Rightarrow> nat) \<Rightarrow> PriorityQueue \<Rightarrow> nat" where
  "top_index tie pq =
     (let c = top_candidates pq in if c = [] then 0 else c ! (tie pq mod length c))"

definition pq_top :: "(PriorityQueue \<Rightarrow> nat) \<Rightarrow> PriorityQueue \<Rightarrow> HuffmanTree" where
  "pq_top tie pq = (if pq = [] then Null else pq ! top_index tie pq)"

definition pq_pop :: "(PriorityQueue \<Rightarrow> nat) \<Rightarrow> PriorityQueue \<Rightarrow> PriorityQueue" where
  "pq_pop tie pq = take (top_index tie pq) pq @ drop (Suc (top_index tie pq)) pq"

definition pq_push :: "HuffmanTree \<Rightarrow> PriorityQueue \<Rightarrow> PriorityQueue" where
  "pq_push x pq = x # pq"

lemma top_index_less: "pq \<noteq> [] \<Longrightarrow> top_index tie pq < length pq"
proof -
  assume ne: "pq \<noteq> []"
  show ?thesis
  proof (cases "top_candidates pq = []")
    case True
    with ne show ?thesis by (simp add: top_index_def)
  next
    case False
    then have "top_candidates pq ! (tie pq mod length (top_candidates pq)) \<in> set (top_candidates pq)"
      by (intro nth_mem) simp
    then show ?thesis
      using False by (auto simp: top_index_def top_candidates_def Let_def)
  qed
qed

lemma length_pq_pop: "pq \<noteq> [] \<Longrightarrow> length (pq_pop tie pq) = length pq - 1"
  using top_index_less [of pq tie] by (simp add: pq_pop_def)

text \<open>
  The \<open>while (pq.size() > 1)\<close> loop of \<open>buildHuffmanTree\<close>: the first element popped
  is \<open>right\<close>, the second is \<open>left\<close>.
\<close>

function build_loop :: "(PriorityQueue \<Rightarrow> nat) \<Rightarrow> PriorityQueue \<Rightarrow> PriorityQueue" where
  "build_loop tie pq =
     (if length pq > 1 then
        let right = pq_top tie pq;
            pq1 = pq_pop tie pq;
            left = pq_top tie pq1;
            pq2 = pq_pop tie pq1;
            merged = internal (frequency left + frequency right) left right
        in build_loop tie (pq_push merged pq2)
      else pq)"
  by pat_completeness auto
termination
proof (relation "measure (\<lambda>(tie, pq). length pq)", goal_cases)
  case 1
  show ?case by simp
next
  case (2 tie pq right pq1 left pq2 merged)
  then have ne: "pq \<noteq> []"
    by auto
  then have l1: "length pq1 = length pq - 1"
    using 2 length_pq_pop [of pq tie] by simp
  with 2 have "pq1 \<noteq> []"
    by auto
  then have "length pq2 = length pq1 - 1"
    using 2 length_pq_pop [of pq1 tie] by simp
  with l1 2 show ?case
    by (simp add: pq_push_def)
qed

declare build_loop.simps [simp del]

text \<open>
  \<open>buildHuffmanTree\<close>: one leaf per entry of the table, the loop, and \<open>pq.top()\<close>.
  (On an empty table \<open>top()\<close> of the empty queue is undefined in C++; \<open>compress\<close>
  returns before.)
\<close>

definition buildHuffmanTree :: "(PriorityQueue \<Rightarrow> nat) \<Rightarrow> FrequencyTable \<Rightarrow> HuffmanTree" where
  "buildHuffmanTree tie frequencies =
     pq_top tie (build_loop tie (fold (\<lambda>pair pq. pq_push (leaf (fst pair) (snd pair)) pq) frequencies []))"

text \<open>
  \<open>CodeTable\<close> is an \<open>unordered_map\<close> from bytes to strings of the characters
  \<open>'0'\<close> and \<open>'1'\<close>.
\<close>

type_synonym CodeTable = "byte \<rightharpoonup> string"

fun generateCodes :: "HuffmanTree \<Rightarrow> string \<Rightarrow> CodeTable \<Rightarrow> CodeTable" where
  "generateCodes Null code codeTable = codeTable"
| "generateCodes (Node ch freq l r) code codeTable =
     (if isLeaf (Node ch freq l r) then codeTable(ch \<mapsto> (if code = [] then ''0'' else code))
      else generateCodes r (code @ ''1'') (generateCodes l (code @ ''0'') codeTable))"

text \<open>The bits of a byte, the most significant first: \<open>(b >> i) & 1\<close> for \<open>i\<close> from 7 down to 0.\<close>

definition byte_bits :: "byte \<Rightarrow> bool list" where
  "byte_bits b = map (bit b) [7, 6, 5, 4, 3, 2, 1, 0]"

text \<open>\<open>serializeTree\<close>: what the call appends to \<open>serialized\<close>.\<close>

fun serializeTree :: "HuffmanTree \<Rightarrow> bool list" where
  "serializeTree Null = []"
| "serializeTree (Node ch freq l r) =
     (if isLeaf (Node ch freq l r) then True # byte_bits ch
      else False # serializeTree l @ serializeTree r)"

text \<open>
  \<open>deserializeTree\<close>.  The argument is \<open>serialized\<close> from \<open>index\<close> on, and the second
  component of the result is \<open>serialized\<close> from the new \<open>index\<close> on.  A leaf whose eight
  bits are not all there gives the null pointer, with \<open>index\<close> at the end.
\<close>

function deserializeTree :: "bool list \<Rightarrow> HuffmanTree \<times> bool list" where
  "deserializeTree [] = (Null, [])"
| "deserializeTree (True # bs) =
     (if length bs < 8 then (Null, [])
      else (leaf (fold (\<lambda>b ch. push_bit 1 ch OR of_bool b) (take 8 bs) 0) 0, drop 8 bs))"
| "deserializeTree (False # bs) =
     (case deserializeTree bs of (l, bs1) \<Rightarrow>
        case deserializeTree bs1 of (r, bs2) \<Rightarrow> (internal 0 l r, bs2))"
  by pat_completeness auto

lemma deserializeTree_rest:
  "deserializeTree_dom bs \<Longrightarrow> length (snd (deserializeTree bs)) \<le> length bs"
proof (induction bs rule: deserializeTree.pinduct)
  case 1
  then show ?case by (simp add: deserializeTree.psimps)
next
  case (2 bs)
  then show ?case by (auto simp add: deserializeTree.psimps)
next
  case (3 bs)
  obtain l bs1 where d1: "deserializeTree bs = (l, bs1)" by (cases "deserializeTree bs")
  obtain r bs2 where d2: "deserializeTree bs1 = (r, bs2)" by (cases "deserializeTree bs1")
  from 3 d1 d2 have "length bs1 \<le> length bs" and "length bs2 \<le> length bs1"
    by auto
  with 3(1) d1 d2 show ?case
    by (simp add: deserializeTree.psimps)
qed

termination deserializeTree
proof (relation "measure length", goal_cases)
  case 1
  show ?case by simp
next
  case (2 bs)
  show ?case by simp
next
  case (3 bs x xa)
  then have "snd (deserializeTree bs) = xa"
    by (metis snd_conv)
  with 3 show ?case
    using deserializeTree_rest [of bs] by simp
qed

text \<open>
  The packing loops of \<open>writeCompressedFile\<close> (the same loop for the tree bits and for
  the code string): eight bits to a byte, the first bit the most significant; a last
  chunk of fewer than eight bits is shifted up to the top of its byte.
\<close>

fun pack_bits :: "bool list \<Rightarrow> byte list" where
  "pack_bits [] = []"
| "pack_bits (b # bs) =
     (let chunk = take 8 (b # bs);
          byte = fold (\<lambda>b acc. push_bit 1 acc OR of_bool b) chunk 0;
          byte' = (if length (b # bs) < 8 then push_bit (8 - length (b # bs)) byte else byte)
      in byte' # pack_bits (drop 8 (b # bs)))"

text \<open>
  The unpacking loops of \<open>readCompressedFile\<close>: the bits of the bytes, the most
  significant first, as long as fewer than \<open>n\<close> bits have been taken.
\<close>

definition unpack_bits :: "nat \<Rightarrow> byte list \<Rightarrow> bool list" where
  "unpack_bits n bytes = take n (concat (map byte_bits bytes))"

text \<open>
  A \<open>uint32_t\<close> written and read as its four bytes in memory, the least significant first
  (section 6.2 of the specification).
\<close>

definition le32 :: "u32 \<Rightarrow> byte list" where
  "le32 x = [ucast x, ucast (drop_bit 8 x), ucast (drop_bit 16 x), ucast (drop_bit 24 x)]"

definition from_le32 :: "byte list \<Rightarrow> u32" where
  "from_le32 bs = ucast (bs ! 0) OR push_bit 8 (ucast (bs ! 1)) OR push_bit 16 (ucast (bs ! 2))
                    OR push_bit 24 (ucast (bs ! 3))"

text \<open>
  What can happen besides output: \<open>compress\<close> refusing an empty input,
  \<open>codeTable.at\<close> throwing on a missing key, a null pointer being dereferenced in the
  tree walk, and a size field being used after the read that should have filled it failed.
\<close>

datatype huff_error = EmptyInput | MissingCode | NullDereference | UninitialisedSize

text \<open>The code string of the input: \<open>encodedData += codeTable.at(ch)\<close>.\<close>

fun encodeData :: "CodeTable \<Rightarrow> byte list \<Rightarrow> string option" where
  "encodeData codeTable [] = Some []"
| "encodeData codeTable (ch # rest) =
     (case codeTable ch of None \<Rightarrow> None
      | Some code \<Rightarrow> map_option ((@) code) (encodeData codeTable rest))"

text \<open>
  \<open>writeCompressedFile\<close>: the bytes of the output file.  The three sizes are cast to
  \<open>uint32_t\<close>.
\<close>

definition writeCompressedFile :: "byte list \<Rightarrow> HuffmanTree \<Rightarrow> CodeTable \<Rightarrow> huff_error + byte list" where
  "writeCompressedFile input root codeTable =
     (let originalSize = (of_nat (length input) :: u32);
          serializedTree = serializeTree root;
          treeSize = (of_nat (length serializedTree) :: u32);
          treeBytes = pack_bits serializedTree
      in case encodeData codeTable input of
           None \<Rightarrow> Inl MissingCode
         | Some encodedData \<Rightarrow>
             let encodedBits = (of_nat (length encodedData) :: u32)
             in Inr (le32 originalSize @ le32 treeSize @ treeBytes @ le32 encodedBits @
                     pack_bits (map (\<lambda>c. c = CHR ''1'') encodedData)))"

text \<open>
  \<open>HuffmanCompressor::compress\<close> on an input file that exists: an empty table is
  refused ("Input file is empty or cannot be read"), a table with one entry gives the
  size and the byte, and otherwise the tree is built and the file written.
\<close>

definition huffman_compress :: "(PriorityQueue \<Rightarrow> nat) \<Rightarrow> byte list \<Rightarrow> huff_error + byte list" where
  "huffman_compress tie input =
     (let frequencies = buildFrequencyTable input in
      case frequencies of
        [] \<Rightarrow> Inl EmptyInput
      | [entry] \<Rightarrow> Inr (le32 (of_nat (length input)) @ [fst entry])
      | _ \<Rightarrow>
          let root = buildHuffmanTree tie frequencies;
              codeTable = generateCodes root [] Map.empty
          in writeCompressedFile input root codeTable)"

text \<open>
  A \<open>std::ifstream\<close>: the bytes of the file, the read position and the fail bit.  A
  \<open>read\<close> of \<open>n\<close> bytes that finds fewer stores the bytes there are and sets the fail
  bit; on a stream whose fail bit is set, \<open>read\<close> stores nothing and \<open>seekg\<close> does
  nothing.
\<close>

record ifstream =
  is_data :: "byte list"
  is_pos :: nat
  is_fail :: bool

definition ifstream_open :: "byte list \<Rightarrow> ifstream" where
  "ifstream_open bs = \<lparr>is_data = bs, is_pos = 0, is_fail = False\<rparr>"

definition ifstream_read :: "ifstream \<Rightarrow> nat \<Rightarrow> byte list \<times> ifstream" where
  "ifstream_read s n =
     (if is_fail s then ([], s)
      else let avail = drop (is_pos s) (is_data s)
           in if n \<le> length avail then (take n avail, s\<lparr>is_pos := is_pos s + n\<rparr>)
              else (avail, s\<lparr>is_pos := length (is_data s), is_fail := True\<rparr>))"

definition ifstream_seekg :: "ifstream \<Rightarrow> nat \<Rightarrow> ifstream" where
  "ifstream_seekg s p = (if is_fail s then s else s\<lparr>is_pos := p\<rparr>)"

text \<open>
  The tree walk at the end of \<open>readCompressedFile\<close>; \<open>current->left\<close>,
  \<open>current->right\<close> and \<open>current->isLeaf()\<close> dereference \<open>current\<close>.
\<close>

fun walk :: "HuffmanTree \<Rightarrow> HuffmanTree \<Rightarrow> string \<Rightarrow> huff_error + byte list" where
  "walk root current [] = Inr []"
| "walk root Null (b # bits) = Inl NullDereference"
| "walk root (Node ch freq l r) (b # bits) =
     (case (if b = CHR ''0'' then l else r) of
        Null \<Rightarrow> Inl NullDereference
      | Node ch' freq' l' r' \<Rightarrow>
          if isLeaf (Node ch' freq' l' r')
          then (case walk root root bits of Inl e \<Rightarrow> Inl e | Inr out \<Rightarrow> Inr (ch' # out))
          else walk root (Node ch' freq' l' r') bits)"

text \<open>
  \<open>readCompressedFile\<close>.  \<open>uninit\<close> is whatever the local \<open>singleChar\<close> holds before
  anything is stored in it.  The byte vectors are created filled with zeros and keep them
  where a read falls short.
\<close>

definition readCompressedFile :: "byte \<Rightarrow> byte list \<Rightarrow> huff_error + byte list" where
  "readCompressedFile uninit file =
     (let s0 = ifstream_open file;
          (b1, s1) = ifstream_read s0 4
      in if length b1 < 4 then Inl UninitialisedSize
         else
           let originalSize = from_le32 b1 in
           if originalSize = 0 then Inr []
           else
             let (b2, s2) = ifstream_read s1 4 in
             if is_fail s2 then
               let s3 = ifstream_seekg s2 4;
                   (b3, s4) = ifstream_read s3 1;
                   singleChar = (case b3 of [] \<Rightarrow> uninit | c # _ \<Rightarrow> c)
               in Inr (replicate (unat originalSize) singleChar)
             else
               let treeSize = from_le32 b2;
                   treeLen = unat ((treeSize + 7) div 8);
                   (b4, s5) = ifstream_read s2 treeLen;
                   treeBytes = b4 @ replicate (treeLen - length b4) 0;
                   serializedTree = unpack_bits (unat treeSize) treeBytes;
                   root = fst (deserializeTree serializedTree);
                   (b5, s6) = ifstream_read s5 4
               in if length b5 < 4 then Inl UninitialisedSize
                  else
                    let encodedBits = from_le32 b5;
                        encodedLen = unat ((encodedBits + 7) div 8);
                        (b6, s7) = ifstream_read s6 encodedLen;
                        encodedBytes = b6 @ replicate (encodedLen - length b6) 0;
                        bitString = map (\<lambda>b. if b then CHR ''1'' else CHR ''0'')
                                      (unpack_bits (unat encodedBits) encodedBytes)
                    in walk root root bitString)"

text \<open>\<open>HuffmanCompressor::decompress\<close> on an input file that exists.\<close>

definition huffman_decompress :: "byte \<Rightarrow> byte list \<Rightarrow> huff_error + byte list" where
  "huffman_decompress uninit file = readCompressedFile uninit file"


section \<open>Huffman codec: the cost of the merging loop\<close>

text \<open>
  The loop of \<open>buildHuffmanTree\<close> seen through the frequencies alone: the queue as an
  ascending list of numbers; the two smallest are taken out and their sum is put back.
  \<open>merge_cost\<close> adds up the sums.  \<open>weighted\<close> is the sum of the products of two
  lists, a list of frequencies and a list of code lengths; \<open>ins_desc\<close> inserts into a
  descending list; \<open>kraft D ds\<close> is the Kraft sum of the lengths \<open>ds\<close> in units of
  \<open>2 ^ - D\<close>.
\<close>

fun merge_cost :: "nat list \<Rightarrow> nat" where
  "merge_cost [] = 0"
| "merge_cost [a] = 0"
| "merge_cost (a # b # ws) = a + b + merge_cost (insort (a + b) ws)"


fun ins_desc :: "nat \<Rightarrow> nat list \<Rightarrow> nat list" where
  "ins_desc d [] = [d]"
| "ins_desc d (e # es) = (if e \<le> d then d # e # es else e # ins_desc d es)"


lemma length_ins_desc [simp]: "length (ins_desc d ds) = Suc (length ds)"
  by (induction ds) auto

lemma set_ins_desc [simp]: "set (ins_desc d ds) = insert d (set ds)"
  by (induction ds) auto














section \<open>Huffman codec: the tree that is built\<close>

text \<open>
  For the statements about trees: the leaves of a tree from left to right, each with its
  frequency; \<open>proper\<close>, a tree in which every node is a leaf or has two subtrees and every
  inner node carries the sum of its children's frequencies; and \<open>cost\<close>, the sum over
  the leaves of frequency times depth.
\<close>

fun leaves :: "HuffmanTree \<Rightarrow> (byte \<times> nat) list" where
  "leaves Null = []"
| "leaves (Node ch freq l r) =
     (if isLeaf (Node ch freq l r) then [(ch, freq)] else leaves l @ leaves r)"

fun proper :: "HuffmanTree \<Rightarrow> bool" where
  "proper Null = False"
| "proper (Node ch freq l r) =
     (isLeaf (Node ch freq l r) \<or> (proper l \<and> proper r \<and> freq = frequency l + frequency r))"

fun cost :: "HuffmanTree \<Rightarrow> nat" where
  "cost Null = 0"
| "cost (Node ch freq l r) =
     (if isLeaf (Node ch freq l r) then 0 else cost l + cost r + frequency l + frequency r)"

lemma proper_not_Null: "proper t \<Longrightarrow> t \<noteq> Null"
  by (cases t) auto

lemma proper_leaf [simp]: "proper (leaf ch n)"
  by (simp add: leaf_def)

lemma leaves_leaf [simp]: "leaves (leaf ch n) = [(ch, n)]"
  by (simp add: leaf_def)

lemma cost_leaf [simp]: "cost (leaf ch n) = 0"
  by (simp add: leaf_def)

lemma frequency_leaf [simp]: "frequency (leaf ch n) = n"
  by (simp add: leaf_def)

lemma isLeaf_leaf [simp]: "isLeaf (leaf ch n)"
  by (simp add: leaf_def)

lemma merged_facts:
  assumes "proper l" and "proper r"
  shows "proper (internal (frequency l + frequency r) l r)"
    and "\<not> isLeaf (internal (frequency l + frequency r) l r)"
    and "leaves (internal (frequency l + frequency r) l r) = leaves l @ leaves r"
    and "cost (internal (frequency l + frequency r) l r) = cost l + cost r + frequency l + frequency r"
    and "frequency (internal (frequency l + frequency r) l r) = frequency l + frequency r"
  using assms proper_not_Null [of l] by (simp_all add: internal_def)

lemma proper_frequency: "proper t \<Longrightarrow> frequency t = sum_list (map snd (leaves t))"
  by (induction t) auto

lemma proper_leaves_nonempty: "proper t \<Longrightarrow> leaves t \<noteq> []"
  by (induction t) auto

text \<open>
  The comparator orders the nodes by the number \<open>frequency * 256 + character\<close>, so a
  queue that is not empty has a top element, and the top has the least frequency.
\<close>

definition node_key :: "HuffmanTree \<Rightarrow> nat" where
  "node_key t = frequency t * 256 + unat (character t)"

lemma comparator_key: "HuffmanNodeComparator a b \<longleftrightarrow> node_key b < node_key a"
proof -
  have a: "unat (character a) < 256" and b: "unat (character b) < 256"
    using unsigned_less [of "character a", where 'a = nat] unsigned_less [of "character b", where 'a = nat]
    by simp_all
  show ?thesis
  proof (cases "frequency a = frequency b")
    case True
    then show ?thesis
      by (simp add: HuffmanNodeComparator_def node_key_def word_less_nat_alt)
  next
    case False
    then consider "frequency a < frequency b" | "frequency b < frequency a"
      by linarith
    then show ?thesis
    proof cases
      case 1
      then have "Suc (frequency a) * 256 \<le> frequency b * 256" by simp
      with a 1 False show ?thesis
        by (simp add: HuffmanNodeComparator_def node_key_def)
    next
      case 2
      then have "Suc (frequency b) * 256 \<le> frequency a * 256" by simp
      with b 2 False show ?thesis
        by (simp add: HuffmanNodeComparator_def node_key_def)
    qed
  qed
qed

lemma is_top_key: "is_top pq x \<longleftrightarrow> (\<forall>y \<in> set pq. node_key x \<le> node_key y)"
  by (auto simp: is_top_def list_all_iff comparator_key not_less)

lemma top_candidates_nonempty:
  assumes "pq \<noteq> []"
  shows "top_candidates pq \<noteq> []"
proof -
  have "Min (node_key ` set pq) \<in> node_key ` set pq"
    using assms by (intro Min_in) simp_all
  then obtain x where x: "x \<in> set pq" "node_key x = Min (node_key ` set pq)"
    by auto
  then have "is_top pq x"
    by (simp add: is_top_key)
  moreover from x obtain i where "i < length pq" "pq ! i = x"
    by (auto simp: in_set_conv_nth)
  ultimately have "i \<in> set (top_candidates pq)"
    by (simp add: top_candidates_def)
  then show ?thesis by auto
qed

lemma pq_top_is_top:
  assumes "pq \<noteq> []"
  shows "is_top pq (pq_top tie pq)"
proof -
  let ?c = "top_candidates pq"
  have ne: "?c \<noteq> []"
    using assms by (rule top_candidates_nonempty)
  then have "?c ! (tie pq mod length ?c) \<in> set ?c"
    by (intro nth_mem) simp
  then have "is_top pq (pq ! (?c ! (tie pq mod length ?c)))"
    by (simp add: top_candidates_def)
  with ne assms show ?thesis
    by (simp add: pq_top_def top_index_def Let_def)
qed

lemma pq_top_least:
  assumes "pq \<noteq> []" and "y \<in> set pq"
  shows "frequency (pq_top tie pq) \<le> frequency y"
proof -
  have "node_key (pq_top tie pq) \<le> node_key y"
    using pq_top_is_top [OF assms(1), of tie] assms(2) by (simp add: is_top_key)
  moreover have "unat (character (pq_top tie pq)) < 256" "unat (character y) < 256"
    using unsigned_less [of "character (pq_top tie pq)", where 'a = nat]
      unsigned_less [of "character y", where 'a = nat]
    by simp_all
  ultimately show ?thesis
    by (simp add: node_key_def)
qed

lemma pq_top_pop:
  assumes "pq \<noteq> []"
  shows "mset pq = add_mset (pq_top tie pq) (mset (pq_pop tie pq))"
proof -
  let ?i = "top_index tie pq"
  have "?i < length pq"
    using assms by (rule top_index_less)
  then have "pq = take ?i pq @ pq ! ?i # drop (Suc ?i) pq"
    by (rule id_take_nth_drop)
  then have "mset pq = mset (take ?i pq @ pq ! ?i # drop (Suc ?i) pq)"
    by simp
  with assms show ?thesis
    by (simp add: pq_top_def pq_pop_def)
qed


lemma sort_least_first:
  fixes f :: "'a \<Rightarrow> nat"
  assumes "mset xs = add_mset x (mset ys)" and "\<forall>y \<in> set xs. f x \<le> f y"
  shows "sort (map f xs) = f x # sort (map f ys)"
proof (rule properties_for_sort)
  have "mset (map f xs) = image_mset f (mset xs)"
    by simp
  also have "\<dots> = add_mset (f x) (image_mset f (mset ys))"
    by (simp add: assms(1))
  finally show "mset (f x # sort (map f ys)) = mset (map f xs)"
    by simp
  have "set xs = insert x (set ys)"
    using arg_cong [OF assms(1), of set_mset] by simp
  then have "set ys \<subseteq> set xs"
    by auto
  with assms(2) show "sorted (f x # sort (map f ys))"
    by auto
qed

lemma sum_cost_pop:
  fixes g :: "'a \<Rightarrow> nat"
  assumes "mset xs = add_mset x (mset ys)"
  shows "sum_list (map g xs) = g x + sum_list (map g ys)"
proof -
  have "sum_list (map g xs) = sum_mset (image_mset g (mset xs))"
    by (simp add: sum_mset_sum_list [symmetric])
  also have "\<dots> = g x + sum_mset (image_mset g (mset ys))"
    by (simp add: assms)
  also have "sum_mset (image_mset g (mset ys)) = sum_list (map g ys)"
    by (simp add: sum_mset_sum_list [symmetric])
  finally show ?thesis .
qed

text \<open>
  What the loop of \<open>buildHuffmanTree\<close> does to a queue of proper trees, whatever the
  ties: it ends with one proper tree, which has the leaves of all the trees of the queue
  and whose cost is theirs plus \<open>merge_cost\<close> of the sorted frequencies.
\<close>

lemma build_loop_result:
  assumes "pq \<noteq> []" and "\<forall>t \<in> set pq. proper t"
  shows "\<exists>t. build_loop tie pq = [t] \<and> proper t \<and>
           mset (leaves t) = (\<Sum>u \<in># mset pq. mset (leaves u)) \<and>
           cost t = sum_list (map cost pq) + merge_cost (sort (map frequency pq)) \<and>
           (1 < length pq \<longrightarrow> \<not> isLeaf t)"
  using assms
proof (induction tie pq rule: build_loop.induct)
  case (1 tie pq)
  show ?case
  proof (cases "1 < length pq")
    case False
    with "1.prems" obtain t where pq: "pq = [t]"
      by (cases pq) auto
    with "1.prems" show ?thesis
      by (subst build_loop.simps) simp
  next
    case True
    define r where "r = pq_top tie pq"
    define pq1 where "pq1 = pq_pop tie pq"
    define l where "l = pq_top tie pq1"
    define pq2 where "pq2 = pq_pop tie pq1"
    define merged where "merged = internal (frequency l + frequency r) l r"
    have m1: "mset pq = add_mset r (mset pq1)"
      unfolding r_def pq1_def using "1.prems"(1) by (rule pq_top_pop)
    have "length pq1 = length pq - 1"
      unfolding pq1_def using "1.prems"(1) by (rule length_pq_pop)
    with True have ne1: "pq1 \<noteq> []"
      by auto
    have m2: "mset pq1 = add_mset l (mset pq2)"
      unfolding l_def pq2_def using ne1 by (rule pq_top_pop)
    have "set pq = insert r (set pq1)"
      using arg_cong [OF m1, of set_mset] by simp
    then have sub1: "set pq1 \<subseteq> set pq" and rin: "r \<in> set pq"
      by auto
    have "set pq1 = insert l (set pq2)"
      using arg_cong [OF m2, of set_mset] by simp
    then have sub2: "set pq2 \<subseteq> set pq1" and lin: "l \<in> set pq1"
      by auto
    have pr: "proper r" and pl: "proper l" and p2: "\<forall>t \<in> set pq2. proper t"
      using "1.prems"(2) rin lin sub1 sub2 by auto
    note mf = merged_facts [OF pl pr, folded merged_def]
    have least_r: "\<forall>y \<in> set pq. frequency r \<le> frequency y"
      unfolding r_def using "1.prems"(1) by (auto intro: pq_top_least)
    have least_l: "\<forall>y \<in> set pq1. frequency l \<le> frequency y"
      unfolding l_def using ne1 by (auto intro: pq_top_least)
    have sorted_pq: "sort (map frequency pq) = frequency r # frequency l # sort (map frequency pq2)"
      using sort_least_first [OF m1 least_r] sort_least_first [OF m2 least_l] by simp
    have step: "build_loop tie pq = build_loop tie (pq_push merged pq2)"
      using True
      by (subst build_loop.simps) (simp add: Let_def r_def pq1_def l_def pq2_def merged_def)
    have "\<exists>t. build_loop tie (pq_push merged pq2) = [t] \<and> proper t \<and>
           mset (leaves t) = (\<Sum>u \<in># mset (pq_push merged pq2). mset (leaves u)) \<and>
           cost t = sum_list (map cost (pq_push merged pq2)) +
                    merge_cost (sort (map frequency (pq_push merged pq2))) \<and>
           (1 < length (pq_push merged pq2) \<longrightarrow> \<not> isLeaf t)"
      using True p2 mf(1)
      by (intro "1.IH" [OF True r_def pq1_def l_def pq2_def merged_def]) (auto simp: pq_push_def)
    then obtain t where t: "build_loop tie (pq_push merged pq2) = [t]" "proper t"
      "mset (leaves t) = (\<Sum>u \<in># mset (pq_push merged pq2). mset (leaves u))"
      "cost t = sum_list (map cost (pq_push merged pq2)) +
                merge_cost (sort (map frequency (pq_push merged pq2)))"
      "1 < length (pq_push merged pq2) \<longrightarrow> \<not> isLeaf t"
      by blast
    have leaves_eq: "mset (leaves t) = (\<Sum>u \<in># mset pq. mset (leaves u))"
      using t(3) mf(3) by (simp add: pq_push_def m1 m2)
    have "sum_list (map cost pq) = cost r + (cost l + sum_list (map cost pq2))"
      using sum_cost_pop [OF m1, of cost] sum_cost_pop [OF m2, of cost] by simp
    moreover have "sort (map frequency (pq_push merged pq2)) =
        insort (frequency l + frequency r) (sort (map frequency pq2))"
      by (simp add: pq_push_def mf(5))
    ultimately have cost_eq: "cost t = sum_list (map cost pq) + merge_cost (sort (map frequency pq))"
      using t(4) mf(4) by (simp add: sorted_pq pq_push_def add.commute)
    have not_leaf: "\<not> isLeaf t"
    proof (cases "pq2 = []")
      case True
      with t(1) have "t = merged"
        by (subst (asm) build_loop.simps) (simp add: pq_push_def)
      with mf(2) show ?thesis by simp
    next
      case False
      then have "1 < length (pq_push merged pq2)"
        by (cases pq2) (simp_all add: pq_push_def)
      with t(5) show ?thesis by simp
    qed
    from step t(1,2) leaves_eq cost_eq not_leaf show ?thesis
      by simp
  qed
qed


section \<open>Huffman codec: the frequency table and the code table\<close>

lemma bump_keys:
  "map fst (bump ch t) = (if ch \<in> fst ` set t then map fst t else map fst t @ [ch])"
proof (induction t)
  case Nil
  show ?case by simp
next
  case (Cons p t)
  obtain k v where p: "p = (k, v)" by (cases p)
  show ?case
  proof (cases "k = ch")
    case True
    then show ?thesis by (simp add: p)
  next
    case False
    then have "(ch \<in> fst ` set (p # t)) = (ch \<in> fst ` set t)"
      by (auto simp: p)
    with False Cons.IH show ?thesis
      by (simp add: p)
  qed
qed

text \<open>
  \<open>buildFrequencyTable\<close>: the keys are the bytes of the input, each once, and the
  count of a key is the number of its occurrences.
\<close>

lemma fold_bump:
  assumes "distinct (map fst t)"
  shows "distinct (map fst (fold bump xs t)) \<and>
         fst ` set (fold bump xs t) = fst ` set t \<union> set xs \<and>
         (\<forall>k. map_of (fold bump xs t) k =
            (if k \<in> fst ` set t \<union> set xs
             then Some ((case map_of t k of None \<Rightarrow> 0 | Some v \<Rightarrow> v) + count_list xs k)
             else None))"
  using assms
proof (induction xs arbitrary: t)
  case Nil
  then show ?case
    by (auto simp: map_of_eq_None_iff split: option.splits dest: weak_map_of_SomeI)
next
  case (Cons x xs)
  have d: "distinct (map fst (bump x t))"
    using Cons.prems by (auto simp: bump_keys)
  have "set (map fst (bump x t)) = insert x (set (map fst t))"
    by (simp only: bump_keys) auto
  then have keys: "fst ` set (bump x t) = insert x (fst ` set t)"
    by simp
  have look: "map_of (bump x t) k =
      (if k = x then Some ((case map_of t x of None \<Rightarrow> 0 | Some v \<Rightarrow> v) + 1) else map_of t k)" for k
    by (induction t) auto
  show ?case
    using Cons.IH [OF d] by (auto simp: keys look split: option.splits)
qed

lemma frequency_table:
  shows table_distinct: "distinct (map fst (buildFrequencyTable input))"
    and table_keys: "fst ` set (buildFrequencyTable input) = set input"
    and table_lookup: "map_of (buildFrequencyTable input) k =
          (if k \<in> set input then Some (count_list input k) else None)"
  using fold_bump [of "[]" input] by (simp_all add: buildFrequencyTable_def)


lemma table_length: "length (buildFrequencyTable input) = card (set input)"
proof -
  have "length (buildFrequencyTable input) = length (map fst (buildFrequencyTable input))"
    by simp
  also have "\<dots> = card (set (map fst (buildFrequencyTable input)))"
    using table_distinct [of input] by (simp only: distinct_card)
  finally show ?thesis
    using table_keys [of input] by simp
qed

lemma table_length_le: "length (buildFrequencyTable input) \<le> 256"
proof -
  have "card (set input) \<le> card (UNIV :: byte set)"
    by (intro card_mono) simp_all
  then show ?thesis
    by (simp add: table_length card_word)
qed



text \<open>
  The codes that \<open>generateCodes\<close> enters, in the order of the leaves: each leaf with the
  string of its path.
\<close>

fun paths :: "HuffmanTree \<Rightarrow> string \<Rightarrow> (byte \<times> string) list" where
  "paths Null code = []"
| "paths (Node ch freq l r) code =
     (if isLeaf (Node ch freq l r) then [(ch, if code = [] then ''0'' else code)]
      else paths l (code @ ''0'') @ paths r (code @ ''1''))"

lemma generateCodes_fold:
  "generateCodes t code tbl = fold (\<lambda>entry m. m(fst entry \<mapsto> snd entry)) (paths t code) tbl"
  by (induction t arbitrary: code tbl) auto

lemma fold_update_map_of:
  "distinct (map fst ps) \<Longrightarrow>
   fold (\<lambda>entry m. m(fst entry \<mapsto> snd entry)) ps tbl = tbl ++ map_of ps"
proof (induction ps arbitrary: tbl)
  case Nil
  show ?case by simp
next
  case (Cons p ps)
  obtain a b where p: "p = (a, b)" by (cases p)
  from Cons.prems have "a \<notin> dom (map_of ps)"
    by (auto simp: p dom_map_of_conv_image_fst)
  then have left: "tbl(a \<mapsto> b) ++ map_of ps = (tbl ++ map_of ps)(a \<mapsto> b)"
    by (simp add: map_add_upd_left)
  have "fold (\<lambda>entry m. m(fst entry \<mapsto> snd entry)) (p # ps) tbl =
        fold (\<lambda>entry m. m(fst entry \<mapsto> snd entry)) ps (tbl(a \<mapsto> b))"
    by (simp add: p)
  also have "\<dots> = tbl(a \<mapsto> b) ++ map_of ps"
    using Cons.prems by (intro Cons.IH) simp
  also note left
  also have "(tbl ++ map_of ps)(a \<mapsto> b) = tbl ++ (map_of ps)(a \<mapsto> b)"
    by (rule map_add_upd [symmetric])
  also have "(map_of ps)(a \<mapsto> b) = map_of (p # ps)"
    by (simp add: p)
  finally show ?case .
qed

lemma paths_keys: "map fst (paths t code) = map fst (leaves t)"
  by (induction t arbitrary: code) auto

lemma paths_nonempty: "(c, p) \<in> set (paths t code) \<Longrightarrow> p \<noteq> []"
  by (induction t arbitrary: code) (auto split: if_splits)

lemma paths_bits:
  "(c, p) \<in> set (paths t code) \<Longrightarrow> set p \<subseteq> set code \<union> {CHR ''0'', CHR ''1''}"
proof (induction t arbitrary: code)
  case Null
  then show ?case by simp
next
  case (Node ch freq l r)
  show ?case
  proof (cases "isLeaf (Node ch freq l r)")
    case True
    with Node.prems show ?thesis by (auto split: if_splits)
  next
    case False
    with Node.prems consider "(c, p) \<in> set (paths l (code @ ''0''))" | "(c, p) \<in> set (paths r (code @ ''1''))"
      by auto
    then show ?thesis
    proof cases
      case 1
      from Node.IH(1) [OF 1] show ?thesis by auto
    next
      case 2
      from Node.IH(2) [OF 2] show ?thesis by auto
    qed
  qed
qed

lemma paths_extend:
  "(c, p) \<in> set (paths t code) \<Longrightarrow> code \<noteq> [] \<or> \<not> isLeaf t \<Longrightarrow> prefix code p"
proof (induction t arbitrary: code)
  case Null
  then show ?case by simp
next
  case (Node ch freq l r)
  show ?case
  proof (cases "isLeaf (Node ch freq l r)")
    case True
    with Node.prems show ?thesis by (auto split: if_splits)
  next
    case False
    with Node.prems consider "(c, p) \<in> set (paths l (code @ ''0''))" | "(c, p) \<in> set (paths r (code @ ''1''))"
      by auto
    then show ?thesis
    proof cases
      case 1
      then have "prefix (code @ ''0'') p" by (intro Node.IH(1)) simp_all
      then show ?thesis by (rule append_prefixD)
    next
      case 2
      then have "prefix (code @ ''1'') p" by (intro Node.IH(2)) simp_all
      then show ?thesis by (rule append_prefixD)
    qed
  qed
qed



text \<open>The code of a byte in a code table, for the sums; the empty string where there is none.\<close>

definition code_of :: "CodeTable \<Rightarrow> byte \<Rightarrow> string" where
  "code_of codeTable b = (case codeTable b of None \<Rightarrow> [] | Some code \<Rightarrow> code)"



lemma initial_queue:
  "fold (\<lambda>pair pq. pq_push (leaf (fst pair) (snd pair)) pq) T acc =
   rev (map (\<lambda>pair. leaf (fst pair) (snd pair)) T) @ acc"
  by (induction T arbitrary: acc) (simp_all add: pq_push_def)

lemma pq_top_single: "pq_top tie [t] = t"
  using top_index_less [of "[t]" tie] by (simp add: pq_top_def)

text \<open>
  The tree that \<open>buildHuffmanTree\<close> returns for the table of an input with at least two
  different bytes.
\<close>

lemma huffman_tree:
  fixes tie :: "PriorityQueue \<Rightarrow> nat" and input :: "byte list"
  assumes "1 < card (set input)"
  defines "root \<equiv> buildHuffmanTree tie (buildFrequencyTable input)"
  shows "proper root" and "\<not> isLeaf root"
    and "mset (leaves root) = mset (buildFrequencyTable input)"
    and "distinct (map fst (leaves root))"
    and "cost root = merge_cost (sort (map snd (buildFrequencyTable input)))"
proof -
  let ?T = "buildFrequencyTable input"
  let ?pq = "rev (map (\<lambda>pair. leaf (fst pair) (snd pair)) ?T)"
  have len: "1 < length ?pq"
    using assms(1) by (simp add: table_length)
  then have ne: "?pq \<noteq> []"
    by auto
  have pr: "\<forall>t \<in> set ?pq. proper t"
    by auto
  from build_loop_result [OF ne pr, of tie] len obtain t where t: "build_loop tie ?pq = [t]" "proper t"
    "mset (leaves t) = (\<Sum>u \<in># mset ?pq. mset (leaves u))"
    "cost t = sum_list (map cost ?pq) + merge_cost (sort (map frequency ?pq))" "\<not> isLeaf t"
    by blast
  have root: "root = t"
    using initial_queue [of ?T "[]"] t(1) by (simp add: root_def buildHuffmanTree_def pq_top_single)
  have "(\<Sum>u \<in># mset (rev (map (\<lambda>pair. leaf (fst pair) (snd pair)) T)). mset (leaves u)) = mset T"
    for T :: FrequencyTable
    by (induction T) simp_all
  then have l: "(\<Sum>u \<in># mset ?pq. mset (leaves u)) = mset ?T" .
  have c: "sum_list (map cost ?pq) = 0"
    by (simp add: rev_map [symmetric] comp_def)
  have "mset (map frequency ?pq) = mset (map snd ?T)"
    by (simp add: rev_map [symmetric] comp_def)
  then have f: "sort (map frequency ?pq) = sort (map snd ?T)"
    by (intro properties_for_sort) simp_all
  show "proper root" "\<not> isLeaf root"
    using t root by simp_all
  show m: "mset (leaves root) = mset ?T"
    using t(3) l root by simp
  have "mset (map fst (leaves root)) = mset (map fst ?T)"
    by (simp only: mset_map m)
  then show "distinct (map fst (leaves root))"
    using table_distinct [of input] mset_eq_imp_distinct_iff [of "map fst (leaves root)" "map fst ?T"]
    by simp
  show "cost root = merge_cost (sort (map snd ?T))"
    using t(4) c f root by simp
qed




section \<open>Huffman codec: the two short forms\<close>

lemma le32_roundtrip: "from_le32 (le32 x) = x"
proof (rule bit_word_eqI)
  fix n
  assume "n < LENGTH(32)"
  then have n: "n < 32" by simp
  have b: "\<And>m k. m < 8 \<Longrightarrow> bit (ucast (drop_bit k x) :: byte) m = bit x (k + m)"
    by (simp add: bit_simps)
  consider "n < 8" | "8 \<le> n" "n < 16" | "16 \<le> n" "n < 24" | "24 \<le> n" "n < 32"
    using n by linarith
  then show "bit (from_le32 (le32 x)) n = bit x n"
    by cases (auto simp: from_le32_def le32_def bit_simps)
qed

lemma length_le32 [simp]: "length (le32 x) = 4"
  by (simp add: le32_def)

lemma table_replicate: "buildFrequencyTable (replicate (Suc n) b) = [(b, Suc n)]"
proof -
  have "fold bump (replicate n b) [(b, k)] = [(b, k + n)]" for k
    by (induction n arbitrary: k) simp_all
  from this [of 1] show ?thesis
    by (simp add: buildFrequencyTable_def)
qed

text \<open>
  C8 (the code at the failing input).  An input of \<open>n + 1\<close> copies of one byte is
  compressed to the four bytes of its size and that byte; the single byte \<open>58\<close> gives
  \<open>01 00 00 00 58\<close>.  In \<open>readCompressedFile\<close> the read of \<open>treeSize\<close> then fails
  and sets the fail bit; the stream is never cleared, so \<open>seekg\<close> and the read of
  \<open>singleChar\<close> do nothing, and the output is made of copies of whatever \<open>singleChar\<close>
  held before, not of the byte \<open>58\<close> in the file.
\<close>

theorem huffman_single_symbol:
  "huffman_compress tie (replicate (Suc n) b) = Inr (le32 (of_nat (Suc n)) @ [b]) \<and>
   huffman_compress tie [0x58] = Inr [0x01, 0x00, 0x00, 0x00, 0x58] \<and>
   huffman_decompress uninit [0x01, 0x00, 0x00, 0x00, 0x58] = Inr [uninit] \<and>
   huffman_decompress 0 [0x01, 0x00, 0x00, 0x00, 0x58] \<noteq> Inr [0x58]"
proof -
  have a: "huffman_compress tie (replicate (Suc n) b) = Inr (le32 (of_nat (Suc n)) @ [b])" for n b
    by (simp only: huffman_compress_def table_replicate Let_def list.case fst_conv length_replicate)
  have "huffman_compress tie (replicate (Suc 0) 0x58) = Inr (le32 (of_nat (Suc 0)) @ [0x58])"
    by (rule a)
  then have b: "huffman_compress tie [0x58] = Inr [0x01, 0x00, 0x00, 0x00, 0x58]"
    by (simp add: le32_def)
  have c: "huffman_decompress uninit [0x01, 0x00, 0x00, 0x00, 0x58] = Inr [uninit]" for uninit
    by (simp add: huffman_decompress_def readCompressedFile_def ifstream_open_def ifstream_read_def
        ifstream_seekg_def from_le32_def Let_def)
  from a b c show ?thesis
    by simp
qed

section \<open>The empty input\<close>

text \<open>
  C4 (as stated, refuted): \<open>HuffmanCompressor::compress\<close> does not succeed on the empty
  input; it reports "Input file is empty or cannot be read" and returns false.
\<close>

theorem empty_input_counterexample:
  "huffman_compress (\<lambda>pq. 0) [] = Inl EmptyInput"
  by (simp add: huffman_compress_def buildFrequencyTable_def)

text \<open>
  C4 (amended): for the empty input, RLE compression succeeds with an output of 0 bytes,
  which decompresses to the empty sequence.  The LZW encoder \<open>compressData\<close> succeeds and
  gives the bit writer the STOP code alone, at width 9; flushed, that is the two bytes
  \<open>80 80\<close>, which decompress to the empty sequence.  Huffman compression refuses the empty
  input with an error and writes no file; the Huffman decoder maps the four zero bytes of a
  zero original size to the empty sequence.
\<close>

theorem empty_input:
  "rle_compress [] = (True, []) \<and>
   rle_decompress [] = (True, []) \<and>
   compressData log_write [] [] = (True, [(257, 9)]) \<and>
   lzw_encode [] = [0x80, 0x80] \<and>
   lzw_decompress [0x80, 0x80] = Some (Inr []) \<and>
   huffman_compress tie [] = Inl EmptyInput \<and>
   huffman_decompress uninit [0x00, 0x00, 0x00, 0x00] = Inr []"
proof -
  have rle: "rle_compress [] = (True, [])" "rle_decompress [] = (True, [])"
    by (simp_all add: rle_compress_def rle_decompress_def)
  have trace: "compressData log_write [] [] = (True, [(257, 9)])"
    by (simp add: compressData_def log_write_def STOP_CODE_def INITIAL_CODE_WIDTH_def)
  have lzw: "lzw_encode [] = [0x80, 0x80]" "lzw_decompress [0x80, 0x80] = Some (Inr [])"
    by code_simp+
  have huff: "huffman_compress tie [] = Inl EmptyInput"
    by (simp add: huffman_compress_def buildFrequencyTable_def)
  have dec: "huffman_decompress uninit [0x00, 0x00, 0x00, 0x00] = Inr []"
    by (simp add: huffman_decompress_def readCompressedFile_def ifstream_open_def ifstream_read_def
        from_le32_def Let_def)
  from rle trace lzw huff dec show ?thesis
    by simp
qed


section \<open>Huffman codec: the file read back\<close>

text \<open>
  The byte that the packing loops build from a chunk of at most eight bits: bit \<open>i\<close> of
  the byte is the bit of the chunk that is \<open>i\<close> places from its end.
\<close>

lemma bit_pack_step:
  fixes x :: byte
  shows "bit (push_bit 1 x OR of_bool b) i = (if i = 0 then b else i < 8 \<and> bit x (i - 1))"
proof -
  have "bit (push_bit 1 x OR of_bool b) i = (bit (push_bit 1 x) i \<or> bit (of_bool b :: byte) i)"
    by (rule bit_or_iff)
  also have "bit (push_bit 1 x) i = (1 \<le> i \<and> i < 8 \<and> bit x (i - 1))"
    unfolding bit_push_bit_iff possible_bit_word by simp
  also have "bit (of_bool b :: byte) i = (b \<and> i = 0)"
    by (auto simp only: bit_of_bool_iff)
  finally show ?thesis
    by auto
qed

lemma bit_packed:
  fixes chunk :: "bool list"
  shows "length chunk \<le> 8 \<Longrightarrow>
         bit (fold (\<lambda>b acc. push_bit 1 acc OR of_bool b) chunk (0 :: byte)) i =
           (i < length chunk \<and> chunk ! (length chunk - 1 - i))"
proof (induction chunk arbitrary: i rule: rev_induct)
  case Nil
  show ?case by simp
next
  case (snoc b chunk)
  let ?P = "fold (\<lambda>b acc. push_bit 1 acc OR of_bool b) chunk (0 :: byte)"
  from snoc.prems have len: "length chunk < 8" by simp
  have ih: "bit ?P j = (j < length chunk \<and> chunk ! (length chunk - 1 - j))" for j
    using snoc.IH [of j] len by simp
  have "fold (\<lambda>b acc. push_bit 1 acc OR of_bool b) (chunk @ [b]) (0 :: byte) = push_bit 1 ?P OR of_bool b"
    by (simp only: fold_append comp_def fold.simps id_def)
  then have "bit (fold (\<lambda>b acc. push_bit 1 acc OR of_bool b) (chunk @ [b]) (0 :: byte)) i
         = (if i = 0 then b else i < 8 \<and> bit ?P (i - 1))"
    by (simp only: bit_pack_step)
  also have "\<dots> = (i < length (chunk @ [b]) \<and> (chunk @ [b]) ! (length (chunk @ [b]) - 1 - i))"
  proof (cases i)
    case 0
    then show ?thesis by simp
  next
    case (Suc j)
    then show ?thesis
      using ih [of j] len by (auto simp: nth_append)
  qed
  finally show ?case .
qed

lemma length_byte_bits [simp]: "length (byte_bits b) = 8"
  by (simp add: byte_bits_def)

lemma byte_bits_nth: "j < 8 \<Longrightarrow> byte_bits b ! j = bit b (7 - j)"
proof -
  assume "j < 8"
  then consider "j = 0" | "j = 1" | "j = 2" | "j = 3" | "j = 4" | "j = 5" | "j = 6" | "j = 7"
    by linarith
  then show ?thesis
    by cases (simp_all add: byte_bits_def)
qed

lemma packed_byte_bits:
  "fold (\<lambda>b acc. push_bit 1 acc OR of_bool b) (byte_bits c) (0 :: byte) = c"
proof (rule bit_word_eqI)
  fix n
  assume "n < LENGTH(8)"
  then have n: "n < 8" by simp
  then show "bit (fold (\<lambda>b acc. push_bit 1 acc OR of_bool b) (byte_bits c) (0 :: byte)) n = bit c n"
    using bit_packed [of "byte_bits c" n] byte_bits_nth [of "7 - n" c] by simp
qed

lemma byte_bits_packed:
  fixes chunk :: "bool list"
  assumes "length chunk \<le> 8"
  shows "byte_bits (push_bit (8 - length chunk) (fold (\<lambda>b acc. push_bit 1 acc OR of_bool b) chunk (0 :: byte)))
           = chunk @ replicate (8 - length chunk) False"
proof (rule nth_equalityI)
  show "length (byte_bits (push_bit (8 - length chunk) (fold (\<lambda>b acc. push_bit 1 acc OR of_bool b) chunk (0 :: byte))))
          = length (chunk @ replicate (8 - length chunk) False)"
    using assms by simp
next
  fix j
  let ?P = "fold (\<lambda>b acc. push_bit 1 acc OR of_bool b) chunk (0 :: byte)"
  assume "j < length (byte_bits (push_bit (8 - length chunk) ?P))"
  then have j: "j < 8" by simp
  have "byte_bits (push_bit (8 - length chunk) ?P) ! j = bit (push_bit (8 - length chunk) ?P) (7 - j)"
    using j by (rule byte_bits_nth)
  also have "\<dots> = (8 - length chunk \<le> 7 - j \<and> bit ?P (7 - j - (8 - length chunk)))"
  proof -
    have "7 - j < 8" by arith
    then show ?thesis
      unfolding bit_push_bit_iff possible_bit_word by simp
  qed
  also have "\<dots> = (j < length chunk \<and> chunk ! j)"
  proof (cases "j < length chunk")
    case True
    then have "7 - j - (8 - length chunk) = length chunk - 1 - j" and "8 - length chunk \<le> 7 - j"
      using assms by arith+
    moreover have "length chunk - 1 - (length chunk - 1 - j) = j" and "length chunk - Suc j < length chunk"
      using True by arith+
    ultimately show ?thesis
      using bit_packed [OF assms, of "length chunk - 1 - j"] True by simp
  next
    case False
    then have "\<not> 8 - length chunk \<le> 7 - j"
      using assms j by arith
    with False show ?thesis by simp
  qed
  also have "\<dots> = (chunk @ replicate (8 - length chunk) False) ! j"
    using j assms by (simp add: nth_append)
  finally show "byte_bits (push_bit (8 - length chunk) ?P) ! j = (chunk @ replicate (8 - length chunk) False) ! j" .
qed

lemma length_pack_bits: "length (pack_bits bs) = (length bs + 7) div 8"
proof (induction bs rule: pack_bits.induct)
  case 1
  show ?case by simp
next
  case (2 b bs)
  have "length (pack_bits (b # bs)) = Suc (length (pack_bits (drop 8 (b # bs))))"
    by (simp add: Let_def)
  also have "\<dots> = Suc ((length (drop 8 (b # bs)) + 7) div 8)"
    using 2 by simp
  also have "\<dots> = (length (b # bs) + 7) div 8"
    by (cases "length (b # bs) < 8") (simp_all add: le_div_geq)
  finally show ?case .
qed

lemma unpack_pack: "\<exists>pad. concat (map byte_bits (pack_bits bs)) = bs @ pad"
proof (induction bs rule: pack_bits.induct)
  case 1
  show ?case by simp
next
  case (2 b bs)
  let ?bs = "b # bs"
  let ?P = "fold (\<lambda>b acc. push_bit 1 acc OR of_bool b) (take 8 ?bs) (0 :: byte)"
  have "\<exists>pad. concat (map byte_bits (pack_bits (drop 8 ?bs))) = drop 8 ?bs @ pad"
    by (rule 2 [OF refl refl refl])
  then obtain pad where pad: "concat (map byte_bits (pack_bits (drop 8 ?bs))) = drop 8 ?bs @ pad" ..
  show ?case
  proof (cases "length ?bs < 8")
    case True
    then have t: "take 8 ?bs = ?bs" and d: "drop 8 ?bs = []"
      by simp_all
    have "pack_bits ?bs = [push_bit (8 - length ?bs) ?P]"
      using True d by (simp add: Let_def del: take_Suc_Cons drop_Suc_Cons)
    moreover have "byte_bits (push_bit (8 - length ?bs) ?P) = ?bs @ replicate (8 - length ?bs) False"
      using byte_bits_packed [of "take 8 ?bs"] True unfolding t by simp
    ultimately have "concat (map byte_bits (pack_bits ?bs)) = ?bs @ replicate (8 - length ?bs) False"
      by simp
    then show ?thesis by blast
  next
    case False
    then have l: "length (take 8 ?bs) = 8"
      by simp
    have "pack_bits ?bs = ?P # pack_bits (drop 8 ?bs)"
      using False by (simp add: Let_def del: take_Suc_Cons drop_Suc_Cons)
    moreover have "byte_bits ?P = take 8 ?bs"
      using byte_bits_packed [of "take 8 ?bs"] unfolding l by simp
    ultimately have "concat (map byte_bits (pack_bits ?bs)) = take 8 ?bs @ drop 8 ?bs @ pad"
      using pad by simp
    then have "concat (map byte_bits (pack_bits ?bs)) = ?bs @ pad"
      by (simp only: append_assoc [symmetric] append_take_drop_id)
    then show ?thesis by blast
  qed
qed

lemma unpack_bits_pack_bits: "unpack_bits (length bs) (pack_bits bs) = bs"
proof -
  from unpack_pack [of bs] obtain pad where "concat (map byte_bits (pack_bits bs)) = bs @ pad" ..
  then show ?thesis
    by (simp add: unpack_bits_def)
qed


text \<open>
  \<open>deserializeTree\<close> gives back the tree that \<open>serializeTree\<close> wrote, with every
  frequency 0 and every inner character 0: \<open>stripped\<close>.
\<close>

fun stripped :: "HuffmanTree \<Rightarrow> HuffmanTree" where
  "stripped Null = Null"
| "stripped (Node ch freq l r) =
     (if isLeaf (Node ch freq l r) then leaf ch 0 else internal 0 (stripped l) (stripped r))"

lemma stripped_proper:
  "proper t \<Longrightarrow> stripped t \<noteq> Null \<and> isLeaf (stripped t) = isLeaf t \<and>
     (isLeaf t \<longrightarrow> character (stripped t) = character t)"
  by (induction t) (auto simp: leaf_def internal_def)

lemma deserialize_serialize:
  "proper t \<Longrightarrow> deserializeTree (serializeTree t @ rest) = (stripped t, rest)"
proof (induction t arbitrary: rest)
  case Null
  then show ?case by simp
next
  case (Node ch freq l r)
  show ?case
  proof (cases "isLeaf (Node ch freq l r)")
    case True
    have "deserializeTree (True # byte_bits ch @ rest) = (leaf ch 0, rest)"
      using packed_byte_bits [of ch] by simp
    then show ?thesis
      by (simp only: serializeTree.simps stripped.simps True if_True append_Cons)
  next
    case False
    with Node.prems have pl: "proper l" and pr: "proper r"
      by auto
    have "deserializeTree (False # serializeTree l @ serializeTree r @ rest) =
            (internal 0 (stripped l) (stripped r), rest)"
      using Node.IH(1) [OF pl, of "serializeTree r @ rest"] Node.IH(2) [OF pr, of rest]
      by simp
    then show ?thesis
      by (simp only: serializeTree.simps stripped.simps False if_False append_Cons append_assoc)
  qed
qed

lemma length_serializeTree:
  "proper t \<Longrightarrow> length (serializeTree t) + 1 = 10 * length (leaves t)"
proof (induction t)
  case Null
  then show ?case by simp
next
  case (Node ch freq l r)
  show ?case
  proof (cases "isLeaf (Node ch freq l r)")
    case True
    then show ?thesis by simp
  next
    case False
    with Node.prems have "proper l" and "proper r"
      by auto
    with Node.IH have "length (serializeTree l) + 1 = 10 * length (leaves l)"
      and "length (serializeTree r) + 1 = 10 * length (leaves r)"
      by auto
    with False show ?thesis by simp
  qed
qed

text \<open>The tree walk of \<open>readCompressedFile\<close> on the code of one byte, and on a code string.\<close>

lemma walk_step:
  assumes "(if b = CHR ''0'' then l else r) \<noteq> Null"
  shows "walk root (Node ch freq l r) (b # bits) =
           (if isLeaf (if b = CHR ''0'' then l else r)
            then (case walk root root bits of Inl e \<Rightarrow> Inl e
                  | Inr out \<Rightarrow> Inr (character (if b = CHR ''0'' then l else r) # out))
            else walk root (if b = CHR ''0'' then l else r) bits)"
proof -
  from assms obtain ch' freq' l' r' where "(if b = CHR ''0'' then l else r) = Node ch' freq' l' r'"
    by (cases "if b = CHR ''0'' then l else r") auto
  then show ?thesis
    by (cases "b = CHR ''0''") (auto simp del: isLeaf.simps split: sum.splits)
qed

lemma walk_stripped:
  assumes "proper l" and "proper r"
  shows "walk root (Node 0 0 (stripped l) (stripped r)) (CHR ''0'' # bits) =
           (if isLeaf l
            then (case walk root root bits of Inl e \<Rightarrow> Inl e | Inr out \<Rightarrow> Inr (character l # out))
            else walk root (stripped l) bits)"
    and "walk root (Node 0 0 (stripped l) (stripped r)) (CHR ''1'' # bits) =
           (if isLeaf r
            then (case walk root root bits of Inl e \<Rightarrow> Inl e | Inr out \<Rightarrow> Inr (character r # out))
            else walk root (stripped r) bits)"
proof -
  note l = stripped_proper [OF assms(1)]
  note r = stripped_proper [OF assms(2)]
  have "walk root (Node 0 0 (stripped l) (stripped r)) (CHR ''0'' # bits) =
           (if isLeaf (stripped l)
            then (case walk root root bits of Inl e \<Rightarrow> Inl e
                  | Inr out \<Rightarrow> Inr (character (stripped l) # out))
            else walk root (stripped l) bits)"
    using walk_step [of "CHR ''0''" "stripped l" "stripped r" root 0 0 bits] l by simp
  with l show "walk root (Node 0 0 (stripped l) (stripped r)) (CHR ''0'' # bits) =
           (if isLeaf l
            then (case walk root root bits of Inl e \<Rightarrow> Inl e | Inr out \<Rightarrow> Inr (character l # out))
            else walk root (stripped l) bits)"
    by (cases "isLeaf l") (auto split: sum.splits)
  have "walk root (Node 0 0 (stripped l) (stripped r)) (CHR ''1'' # bits) =
           (if isLeaf (stripped r)
            then (case walk root root bits of Inl e \<Rightarrow> Inl e
                  | Inr out \<Rightarrow> Inr (character (stripped r) # out))
            else walk root (stripped r) bits)"
    using walk_step [of "CHR ''1''" "stripped l" "stripped r" root 0 0 bits] r by simp
  with r show "walk root (Node 0 0 (stripped l) (stripped r)) (CHR ''1'' # bits) =
           (if isLeaf r
            then (case walk root root bits of Inl e \<Rightarrow> Inl e | Inr out \<Rightarrow> Inr (character r # out))
            else walk root (stripped r) bits)"
    by (cases "isLeaf r") (auto split: sum.splits)
qed

lemma walk_code:
  assumes "proper t" and "\<not> isLeaf t" and "(c, code @ q) \<in> set (paths t code)"
  shows "walk root (stripped t) (q @ rest) =
           (case walk root root rest of Inl e \<Rightarrow> Inl e | Inr out \<Rightarrow> Inr (c # out))"
  using assms
proof (induction t arbitrary: code q)
  case Null
  then show ?case by simp
next
  case (Node ch freq l r)
  from Node.prems(1,2) have pl: "proper l" and pr: "proper r"
    by auto
  have st: "stripped (Node ch freq l r) = Node 0 0 (stripped l) (stripped r)"
    using Node.prems(2) by (simp only: stripped.simps if_False internal_def)
  from Node.prems(2,3) consider
      (left) "(c, code @ q) \<in> set (paths l (code @ ''0''))"
    | (right) "(c, code @ q) \<in> set (paths r (code @ ''1''))"
    by auto
  then show ?case
  proof cases
    case left
    have "prefix (code @ ''0'') (code @ q)"
      using left by (rule paths_extend) simp
    then obtain q' where q: "q = CHR ''0'' # q'"
      by (auto simp: prefix_def)
    note step = walk_stripped(1) [OF pl pr, of root "q' @ rest"]
    show ?thesis
    proof (cases "isLeaf l")
      case True
      then obtain cl fl where l: "l = Node cl fl Null Null"
        by (cases l) auto
      with left q have c: "character l = c" and q': "q' = []"
        by auto
      have "walk root (Node 0 0 (stripped l) (stripped r)) (CHR ''0'' # rest) =
              (case walk root root rest of Inl e \<Rightarrow> Inl e | Inr out \<Rightarrow> Inr (c # out))"
        using step True c q' by (auto split: sum.splits)
      then show ?thesis
        by (simp only: st q q' append_Cons append_Nil)
    next
      case False
      have "(c, (code @ ''0'') @ q') \<in> set (paths l (code @ ''0''))"
        using left q by simp
      from Node.IH(1) [OF pl False this] step False show ?thesis
        by (simp only: st q append_Cons if_False)
    qed
  next
    case right
    have "prefix (code @ ''1'') (code @ q)"
      using right by (rule paths_extend) simp
    then obtain q' where q: "q = CHR ''1'' # q'"
      by (auto simp: prefix_def)
    note step = walk_stripped(2) [OF pl pr, of root "q' @ rest"]
    show ?thesis
    proof (cases "isLeaf r")
      case True
      then obtain cr fr where r: "r = Node cr fr Null Null"
        by (cases r) auto
      with right q have c: "character r = c" and q': "q' = []"
        by auto
      have "walk root (Node 0 0 (stripped l) (stripped r)) (CHR ''1'' # rest) =
              (case walk root root rest of Inl e \<Rightarrow> Inl e | Inr out \<Rightarrow> Inr (c # out))"
        using step True c q' by (auto split: sum.splits)
      then show ?thesis
        by (simp only: st q q' append_Cons append_Nil)
    next
      case False
      have "(c, (code @ ''1'') @ q') \<in> set (paths r (code @ ''1''))"
        using right q by simp
      from Node.IH(2) [OF pr False this] step False show ?thesis
        by (simp only: st q append_Cons if_False)
    qed
  qed
qed

lemma walk_encode:
  assumes "proper root" and "\<not> isLeaf root"
    and "\<forall>b \<in> set xs. (b, f b) \<in> set (paths root [])"
  shows "walk (stripped root) (stripped root) (concat (map f xs)) = Inr xs"
  using assms(3)
proof (induction xs)
  case Nil
  show ?case by simp
next
  case (Cons b xs)
  then have "(b, [] @ f b) \<in> set (paths root [])"
    by simp
  from walk_code [OF assms(1,2) this, of "stripped root" "concat (map f xs)"] Cons
  show ?case
    by simp
qed

lemma encodeData_codes:
  "\<forall>b \<in> set xs. tbl b \<noteq> None \<Longrightarrow> encodeData tbl xs = Some (concat (map (code_of tbl) xs))"
  by (induction xs) (auto simp: code_of_def)

text \<open>Reading a stream piece by piece.\<close>

lemma read_segment:
  "ifstream_read \<lparr>is_data = pre @ seg @ post, is_pos = length pre, is_fail = False\<rparr> (length seg) =
     (seg, \<lparr>is_data = pre @ seg @ post, is_pos = length pre + length seg, is_fail = False\<rparr>)"
  by (simp add: ifstream_read_def)

lemma unat_bytes_of_bits:
  assumes "n + 7 < 2 ^ 32"
  shows "unat (((of_nat n :: u32) + 7) div 8) = (n + 7) div 8" and "unat (of_nat n :: u32) = n"
proof -
  have e: "(of_nat n :: u32) + 7 = of_nat (n + 7)"
    by simp
  have "unat (of_nat (n + 7) :: u32) = (n + 7) mod 2 ^ LENGTH(32)"
    by (rule unat_of_nat)
  also have "\<dots> = n + 7"
    using assms by simp
  finally have u: "unat (of_nat (n + 7) :: u32) = n + 7" .
  have "unat (((of_nat n :: u32) + 7) div 8) = unat ((of_nat n :: u32) + 7) div unat (8 :: u32)"
    by (rule unat_div)
  also have "\<dots> = (n + 7) div 8"
    by (simp only: e u) simp
  finally show "unat (((of_nat n :: u32) + 7) div 8) = (n + 7) div 8" .
  show "unat (of_nat n :: u32) = n"
    using assms by (simp add: unat_of_nat)
qed


text \<open>
  \<open>readCompressedFile\<close> on a file laid out as \<open>writeCompressedFile\<close> lays it out, when
  the two size fields agree with the lengths of the byte blocks behind them.
\<close>

lemma readCompressedFile_layout:
  assumes "originalSize \<noteq> 0"
    and "unat ((treeSize + 7) div 8) = length treeBytes"
    and "unat ((encodedBits + 7) div 8) = length encodedBytes"
  shows "readCompressedFile uninit
           (le32 originalSize @ le32 treeSize @ treeBytes @ le32 encodedBits @ encodedBytes) =
         walk (fst (deserializeTree (unpack_bits (unat treeSize) treeBytes)))
              (fst (deserializeTree (unpack_bits (unat treeSize) treeBytes)))
              (map (\<lambda>b. if b then CHR ''1'' else CHR ''0'') (unpack_bits (unat encodedBits) encodedBytes))"
proof -
  let ?f = "le32 originalSize @ le32 treeSize @ treeBytes @ le32 encodedBits @ encodedBytes"
  let ?s = "\<lambda>k. \<lparr>is_data = ?f, is_pos = k, is_fail = False\<rparr>"
  have r1: "ifstream_read (ifstream_open ?f) 4 = (le32 originalSize, ?s 4)"
    using read_segment [of "[]" "le32 originalSize" "le32 treeSize @ treeBytes @ le32 encodedBits @ encodedBytes"]
    by (simp add: ifstream_open_def)
  have r2: "ifstream_read (?s 4) 4 = (le32 treeSize, ?s 8)"
    using read_segment [of "le32 originalSize" "le32 treeSize" "treeBytes @ le32 encodedBits @ encodedBytes"]
    by simp
  have r3: "ifstream_read (?s 8) (length treeBytes) = (treeBytes, ?s (8 + length treeBytes))"
    using read_segment [of "le32 originalSize @ le32 treeSize" treeBytes "le32 encodedBits @ encodedBytes"]
    by simp
  have r4: "ifstream_read (?s (8 + length treeBytes)) 4 = (le32 encodedBits, ?s (12 + length treeBytes))"
    using read_segment [of "le32 originalSize @ le32 treeSize @ treeBytes" "le32 encodedBits" encodedBytes]
    by simp
  have r5: "ifstream_read (?s (12 + length treeBytes)) (length encodedBytes) =
              (encodedBytes, ?s (12 + length treeBytes + length encodedBytes))"
    using read_segment [of "le32 originalSize @ le32 treeSize @ treeBytes @ le32 encodedBits" encodedBytes "[]"]
    by simp
  show ?thesis
    unfolding readCompressedFile_def Let_def r1 prod.case le32_roundtrip r2 assms(2) r3 r4
      assms(3) r5
    using assms(1) by simp
qed


section \<open>Compressing and decompressing again\<close>

text \<open>
  \<open>decompress\<close> applied to the file that \<open>compress\<close> wrote, for the Huffman codec;
  where \<open>compress\<close> fails there is no file and the failure is the result.
\<close>

definition huffman_round_trip :: "(PriorityQueue \<Rightarrow> nat) \<Rightarrow> byte \<Rightarrow> byte list \<Rightarrow> huff_error + byte list" where
  "huffman_round_trip tie uninit input =
     (case huffman_compress tie input of
        Inl e \<Rightarrow> Inl e
      | Inr file \<Rightarrow> huffman_decompress uninit file)"

lemma huffman_tree_round_trip:
  fixes tie :: "PriorityQueue \<Rightarrow> nat" and input :: "byte list"
  assumes "1 < card (set input)"
    and "(\<Sum>b \<in> set input. count_list input b *
            length (code_of (generateCodes (buildHuffmanTree tie (buildFrequencyTable input)) [] Map.empty) b))
           + 7 < 2 ^ 32"
  shows "huffman_round_trip tie uninit input = Inr input"
proof -
  let ?T = "buildFrequencyTable input"
  define root where "root = buildHuffmanTree tie ?T"
  define tbl where "tbl = generateCodes root [] Map.empty"
  note tree = huffman_tree [OF assms(1), of tie, folded root_def]
  have dp: "distinct (map fst (paths root []))"
    using tree(4) by (simp add: paths_keys)
  have tbl: "tbl = map_of (paths root [])"
    using fold_update_map_of [OF dp, of Map.empty] by (simp add: tbl_def generateCodes_fold)
  have "set (leaves root) = set ?T"
    using arg_cong [OF tree(3), of set_mset] by simp
  moreover have "set (map fst (paths root [])) = set (map fst (leaves root))"
    by (simp only: paths_keys)
  ultimately have keys: "fst ` set (paths root []) = set input"
    by (simp add: table_keys)
  then have dom: "dom tbl = set input"
    by (simp add: tbl dom_map_of_conv_image_fst)
  have entry: "(b, code_of tbl b) \<in> set (paths root [])" if "b \<in> set input" for b
  proof -
    from that dom obtain p where "tbl b = Some p" by auto
    then show ?thesis
      by (auto simp: tbl code_of_def dest: map_of_SomeD)
  qed
  define enc where "enc = concat (map (code_of tbl) input)"
  have encode: "encodeData tbl input = Some enc"
    unfolding enc_def using dom by (intro encodeData_codes) auto
  have chars: "set enc \<subseteq> {CHR ''0'', CHR ''1''}"
    using paths_bits [OF entry] by (auto simp: enc_def)
  have "length enc = sum_list (map (\<lambda>b. length (code_of tbl b)) input)"
    by (simp add: enc_def length_concat comp_def)
  also have "\<dots> = (\<Sum>b \<in> set input. count_list input b * length (code_of tbl b))"
    by (rule sum_list_map_eq_sum_count)
  finally have bits: "length enc + 7 < 2 ^ 32"
    using assms(2) by (simp add: tbl_def root_def)
  have "length enc \<noteq> 0 \<longrightarrow> input \<noteq> []"
    by (auto simp: enc_def)
  have pos: "0 < length input"
    using assms(1) by (cases input) auto
  have "length (code_of tbl b) \<ge> 1" if "b \<in> set input" for b
    using paths_nonempty [OF entry [OF that]] by (cases "code_of tbl b") auto
  then have "sum_list (map (\<lambda>b. 1) input) \<le> sum_list (map (\<lambda>b. length (code_of tbl b)) input)"
    by (intro sum_list_mono) auto
  then have "length input \<le> length enc"
    by (simp add: enc_def length_concat comp_def sum_list_triv)
  with bits have small: "length input < 2 ^ 32"
    by simp
  have size: "(of_nat (length input) :: u32) \<noteq> 0"
    using pos small by (intro of_nat_neq_0) simp_all
  have "length (leaves root) = length ?T"
    using arg_cong [OF tree(3), of size] by simp
  with table_length_le [of input] length_serializeTree [OF tree(1)]
  have st: "length (serializeTree root) + 7 < 2 ^ 32"
    by simp
  let ?encb = "map (\<lambda>c. c = CHR ''1'') enc"
  have written: "huffman_compress tie input =
      Inr (le32 (of_nat (length input)) @ le32 (of_nat (length (serializeTree root))) @
           pack_bits (serializeTree root) @ le32 (of_nat (length enc)) @ pack_bits ?encb)"
  proof -
    have "length ?T \<ge> 2"
      using assms(1) by (simp add: table_length)
    then obtain a b rest where "?T = a # b # rest"
      by (cases ?T; cases "tl ?T") auto
    then have "huffman_compress tie input =
        writeCompressedFile input (buildHuffmanTree tie ?T) (generateCodes (buildHuffmanTree tie ?T) [] Map.empty)"
      by (simp add: huffman_compress_def Let_def)
    then have "huffman_compress tie input = writeCompressedFile input root tbl"
      by (simp only: root_def tbl_def)
    then show ?thesis
      using encode by (simp add: writeCompressedFile_def Let_def)
  qed
  have l1: "unat (((of_nat (length (serializeTree root)) :: u32) + 7) div 8) = length (pack_bits (serializeTree root))"
    using unat_bytes_of_bits(1) [OF st] by (simp only: length_pack_bits)
  have l2: "unat (((of_nat (length enc) :: u32) + 7) div 8) = length (pack_bits ?encb)"
    using unat_bytes_of_bits(1) [OF bits] by (simp only: length_pack_bits length_map)
  have t: "unpack_bits (unat (of_nat (length (serializeTree root)) :: u32)) (pack_bits (serializeTree root))
             = serializeTree root"
    by (simp only: unat_bytes_of_bits(2) [OF st] unpack_bits_pack_bits)
  have "unpack_bits (length ?encb) (pack_bits ?encb) = ?encb"
    by (rule unpack_bits_pack_bits)
  then have e: "unpack_bits (unat (of_nat (length enc) :: u32)) (pack_bits ?encb) = ?encb"
    by (simp only: unat_bytes_of_bits(2) [OF bits] length_map)
  have "set xs \<subseteq> {CHR ''0'', CHR ''1''} \<Longrightarrow>
        map (\<lambda>b. if b then CHR ''1'' else CHR ''0'') (map (\<lambda>c. c = CHR ''1'') xs) = xs" for xs
    by (induction xs) auto
  from this [OF chars] have again: "map (\<lambda>b. if b then CHR ''1'' else CHR ''0'') ?encb = enc" .
  have d: "fst (deserializeTree (serializeTree root)) = stripped root"
    using deserialize_serialize [OF tree(1), of "[]"] by simp
  have w: "walk (stripped root) (stripped root) enc = Inr input"
    unfolding enc_def using tree(1,2) entry by (intro walk_encode) auto
  have "huffman_decompress uninit
          (le32 (of_nat (length input)) @ le32 (of_nat (length (serializeTree root))) @
           pack_bits (serializeTree root) @ le32 (of_nat (length enc)) @ pack_bits ?encb) = Inr input"
    unfolding huffman_decompress_def readCompressedFile_layout [OF size l1 l2] t e again d
    by (rule w)
  with written show ?thesis
    by (simp add: huffman_round_trip_def)
qed


text \<open>
  C1 (as stated, refuted): the Huffman codec does not give the empty sequence back;
  \<open>compress\<close> refuses it and there is no file to decompress.
\<close>

theorem compress_decompress_counterexample:
  "huffman_round_trip (\<lambda>pq. 0) 0 [] \<noteq> Inr []"
  by (simp add: huffman_round_trip_def huffman_compress_def buildFrequencyTable_def)

text \<open>
  C1 (amended).  RLE: for every byte sequence \<open>S\<close>, \<open>compress\<close> succeeds,
  \<open>decompress\<close> succeeds on its output and gives exactly \<open>S\<close>.  Huffman: for every
  \<open>S\<close> with at least two different bytes, fewer than \<open>2 ^ 31\<close> bytes (the counts are
  \<open>int\<close>) and a code string that, with 7 added, is shorter than \<open>2 ^ 32\<close> bits (the
  size fields are \<open>uint32_t\<close>), \<open>decompress\<close> of the file that \<open>compress\<close> wrote
  gives exactly \<open>S\<close>, however the priority queue breaks ties; for the empty sequence
  \<open>compress\<close> fails.
\<close>

theorem compress_decompress_round_trip:
  "fst (rle_compress S) \<and> fst (rle_decompress (snd (rle_compress S))) \<and>
   snd (rle_decompress (snd (rle_compress S))) = S \<and>
   (1 < card (set S) \<and> length S < 2 ^ 31 \<and>
    (\<Sum>b \<in> set S. count_list S b *
        length (code_of (generateCodes (buildHuffmanTree tie (buildFrequencyTable S)) [] Map.empty) b))
      + 7 < 2 ^ 32 \<longrightarrow>
    huffman_round_trip tie uninit S = Inr S) \<and>
   huffman_round_trip tie uninit [] = Inl EmptyInput"
proof -
  have "fst (rle_compress S)" and "fst (rle_decompress (snd (rle_compress S)))"
    by (simp_all add: rle_compress_def rle_decompress_def)
  moreover have "snd (rle_decompress (snd (rle_compress S))) = S"
    by (rule rle_roundtrip)
  moreover have "huffman_round_trip tie uninit [] = Inl EmptyInput"
    by (simp add: huffman_round_trip_def huffman_compress_def buildFrequencyTable_def)
  ultimately show ?thesis
    using huffman_tree_round_trip [of S tie uninit] by blast
qed

theorem compress_decompress_round_trip_witness:
  "1 < card (set [0x41, 0x42, 0x41 :: byte]) \<and> length [0x41, 0x42, 0x41 :: byte] < 2 ^ 31 \<and>
   (\<Sum>b \<in> set [0x41, 0x42, 0x41 :: byte]. count_list [0x41, 0x42, 0x41] b *
        length (code_of (generateCodes (buildHuffmanTree (\<lambda>pq. 0) (buildFrequencyTable [0x41, 0x42, 0x41])) [] Map.empty) b))
      + 7 < 2 ^ 32 \<and>
   huffman_round_trip (\<lambda>pq. 0) 0 [0x41, 0x42, 0x41] = Inr [0x41, 0x42, 0x41] \<and>
   snd (rle_decompress (snd (rle_compress [0x41, 0x42, 0x41]))) = [0x41, 0x42, 0x41]"
proof -
  have h1: "1 < card (set [0x41, 0x42, 0x41 :: byte])"
    by (simp add: card_insert_if)
  have h2: "length [0x41, 0x42, 0x41 :: byte] < 2 ^ 31"
    by simp
  have h3: "(\<Sum>b \<in> set [0x41, 0x42, 0x41 :: byte]. count_list [0x41, 0x42, 0x41] b *
        length (code_of (generateCodes (buildHuffmanTree (\<lambda>pq. 0) (buildFrequencyTable [0x41, 0x42, 0x41])) [] Map.empty) b))
      + 7 < 2 ^ 32"
  proof -
    have t: "buildFrequencyTable [0x41, 0x42, 0x41] = [(0x41, 2), (0x42, 1)]"
      by (simp add: buildFrequencyTable_def)
    have r: "buildHuffmanTree (\<lambda>pq. 0) [(0x41, 2), (0x42, 1)] =
               Node 0 3 (Node 0x41 2 Null Null) (Node 0x42 1 Null Null)"
      by (simp add: buildHuffmanTree_def build_loop.simps pq_top_def top_index_def top_candidates_def
          is_top_def HuffmanNodeComparator_def pq_pop_def pq_push_def leaf_def internal_def Let_def)
    have s: "set [0x41, 0x42, 0x41 :: byte] = {0x41, 0x42}"
      by auto
    show ?thesis
      unfolding t r s by (simp add: code_of_def)
  qed
  from compress_decompress_round_trip [of "[0x41, 0x42, 0x41]" "\<lambda>pq. 0" 0] h1 h2 h3 show ?thesis
    by blast
qed

end
